theory Spec2Isabelle
  imports Complex_Main "HOL-Library.AList" "HOL-Library.Multiset"
begin

section \<open>Numbers\<close>

text \<open>
  The solvers compute with JavaScript numbers. The model keeps the integers and
  \<open>+Infinity\<close>: every weight of the graphs built by the repository is an integer, and
  sums of integers are exact in a double below \<open>2^53\<close>. An array read out of range
  gives \<open>undefined\<close>, modelled as \<open>None\<close>; every comparison with \<open>undefined\<close>
  (or with \<open>NaN\<close>, which \<open>undefined + w\<close> evaluates to) is false.
\<close>

datatype number = Fin int | Infinity

instantiation number :: linorder
begin

fun less_eq_number :: "number \<Rightarrow> number \<Rightarrow> bool" where
  "less_eq_number (Fin a) (Fin b) = (a \<le> b)"
| "less_eq_number (Fin a) Infinity = True"
| "less_eq_number Infinity (Fin b) = False"
| "less_eq_number Infinity Infinity = True"

fun less_number :: "number \<Rightarrow> number \<Rightarrow> bool" where
  "less_number (Fin a) (Fin b) = (a < b)"
| "less_number (Fin a) Infinity = True"
| "less_number Infinity (Fin b) = False"
| "less_number Infinity Infinity = False"

instance
proof
  fix x y z :: number
  show "(x < y) = (x \<le> y \<and> \<not> y \<le> x)"
    by (cases x; cases y) auto
  show "x \<le> x"
    by (cases x) auto
  show "x \<le> y \<Longrightarrow> y \<le> z \<Longrightarrow> x \<le> z"
    by (cases x; cases y; cases z) auto
  show "x \<le> y \<Longrightarrow> y \<le> x \<Longrightarrow> x = y"
    by (cases x; cases y) auto
  show "x \<le> y \<or> y \<le> x"
    by (cases x; cases y) auto
qed

end

text \<open>\<open>d + weight\<close> for a stored distance \<open>d\<close> and a finite edge weight.\<close>

fun plus_weight :: "number \<Rightarrow> int \<Rightarrow> number" where
  "plus_weight (Fin a) w = Fin (a + w)"
| "plus_weight Infinity w = Infinity"

section \<open>Exceptions\<close>

text \<open>
  Reading a property of \<open>undefined\<close> (\<open>undefined.toFixed(1)\<close> in a step description)
  throws a \<open>TypeError\<close>. Nothing in the repository catches it, so it ends the solve. A
  function in which this can happen returns \<open>Inl TypeError\<close> or \<open>Inr\<close> of its result;
  around it, \<open>None\<close> is kept for a call that does not return.
\<close>

datatype error = TypeError

section \<open>Graph.ts\<close>

text \<open>
  A node is kept by its id (coordinates and label play no part in the solvers). An
  adjacency entry is \<open>(node, weight)\<close>. The maps of the source are association lists
  in insertion order.
\<close>

record Graph =
  nodes :: "int list"
  edges :: "(int \<times> int \<times> int) list"
  adjacencyList :: "(int \<times> (int \<times> int) list) list"

text \<open>\<open>graph.adjacencyList.get(u) || []\<close>\<close>

definition neighborsOf :: "Graph \<Rightarrow> int \<Rightarrow> (int \<times> int) list" where
  "neighborsOf g u = (case map_of (adjacencyList g) u of None \<Rightarrow> [] | Some ns \<Rightarrow> ns)"

record GraphClass = Graph +
  nodeIdCounter :: int

definition newGraphClass :: GraphClass where
  "newGraphClass = \<lparr>nodes = [], edges = [], adjacencyList = [], nodeIdCounter = 0\<rparr>"

definition addNode :: "GraphClass \<Rightarrow> GraphClass" where
  "addNode g = (let id = nodeIdCounter g in
     g\<lparr>nodes := nodes g @ [id],
       adjacencyList := AList.update id [] (adjacencyList g),
       nodeIdCounter := id + 1\<rparr>)"

text \<open>\<open>find\<close> gives the first match, whose weight is overwritten in place.\<close>

fun setEdgeWeight :: "int \<Rightarrow> int \<Rightarrow> int \<Rightarrow> (int \<times> int \<times> int) list \<Rightarrow> (int \<times> int \<times> int) list" where
  "setEdgeWeight from to weight [] = []"
| "setEdgeWeight from to weight ((a, b, w) # es) =
    (if a = from \<and> b = to then (a, b, weight) # es
     else (a, b, w) # setEdgeWeight from to weight es)"

fun setNeighborWeight :: "int \<Rightarrow> int \<Rightarrow> (int \<times> int) list \<Rightarrow> (int \<times> int) list" where
  "setNeighborWeight to weight [] = []"
| "setNeighborWeight to weight ((v, w) # ns) =
    (if v = to then (v, weight) # ns else (v, w) # setNeighborWeight to weight ns)"

definition addEdge :: "int \<Rightarrow> int \<Rightarrow> int \<Rightarrow> GraphClass \<Rightarrow> GraphClass" where
  "addEdge from to weight g =
    (if \<exists>e \<in> set (edges g). fst e = from \<and> fst (snd e) = to
     then g\<lparr>edges := setEdgeWeight from to weight (edges g),
            adjacencyList :=
              (case map_of (adjacencyList g) from of
                 None \<Rightarrow> adjacencyList g
               | Some ns \<Rightarrow> AList.update from (setNeighborWeight to weight ns) (adjacencyList g))\<rparr>
     else g\<lparr>edges := edges g @ [(from, to, weight)],
            adjacencyList := AList.update from
              ((case map_of (adjacencyList g) from of None \<Rightarrow> [] | Some ns \<Rightarrow> ns) @ [(to, weight)])
              (adjacencyList g)\<rparr>)"

definition toGraph :: "GraphClass \<Rightarrow> Graph" where
  "toGraph g = \<lparr>nodes = nodes g, edges = edges g, adjacencyList = adjacencyList g\<rparr>"

definition createExampleGraph :: GraphClass where
  "createExampleGraph =
    (addEdge 8 9 2 (addEdge 7 9 1 (addEdge 6 8 3 (addEdge 3 7 6 (addEdge 5 6 2
    (addEdge 4 5 1 (addEdge 4 3 2 (addEdge 3 5 3 (addEdge 2 4 10 (addEdge 2 1 1
    (addEdge 1 3 5 (addEdge 0 2 2 (addEdge 0 1 4
      (foldl (\<lambda>g i. addNode g) newGraphClass [0..<10]))))))))))))))"

section \<open>MinHeap.ts\<close>

text \<open>A heap node is \<open>(vertex, distance)\<close>; \<open>positions\<close> maps a vertex to its index.\<close>

record MinHeap =
  heap :: "(int \<times> number) list"
  positions :: "(int \<times> nat) list"

definition newMinHeap :: MinHeap where
  "newMinHeap = \<lparr>heap = [], positions = []\<rparr>"

text \<open>\<open>swap\<close> is private and only called with two indices below \<open>heap.length\<close>.\<close>

definition swap :: "nat \<Rightarrow> nat \<Rightarrow> MinHeap \<Rightarrow> MinHeap" where
  "swap i j h =
    (let temp = heap h ! i;
         hp = (heap h)[i := heap h ! j];
         hp = hp[j := temp]
     in \<lparr>heap = hp,
         positions = AList.update (fst (hp ! j)) j (AList.update (fst (hp ! i)) i (positions h))\<rparr>)"

function bubbleUp :: "nat \<Rightarrow> MinHeap \<Rightarrow> MinHeap" where
  "bubbleUp idx h =
    (if idx > 0 then
       (let parent = (idx - 1) div 2 in
        if snd (heap h ! parent) \<le> snd (heap h ! idx) then h
        else bubbleUp parent (swap idx parent h))
     else h)"
  by pat_completeness auto
termination
  by (relation "measure (\<lambda>(idx, h). idx)") auto

function bubbleDown :: "nat \<Rightarrow> MinHeap \<Rightarrow> MinHeap" where
  "bubbleDown idx h =
    (let left = 2 * idx + 1;
         right = 2 * idx + 2;
         smallest = idx;
         smallest = (if left < length (heap h) \<and> snd (heap h ! left) < snd (heap h ! smallest)
                     then left else smallest);
         smallest = (if right < length (heap h) \<and> snd (heap h ! right) < snd (heap h ! smallest)
                     then right else smallest)
     in if smallest = idx then h else bubbleDown smallest (swap idx smallest h))"
  by pat_completeness auto
termination
  by (relation "measure (\<lambda>(idx, h). length (heap h) - idx)")
     (auto simp: swap_def Let_def split: if_splits)

declare bubbleUp.simps [simp del]

declare bubbleDown.simps [simp del]

definition MinHeap_insert :: "int \<Rightarrow> number \<Rightarrow> MinHeap \<Rightarrow> MinHeap" where
  "MinHeap_insert vertex distance h =
    (let hp = heap h @ [(vertex, distance)] in
     bubbleUp (length hp - 1)
       \<lparr>heap = hp, positions = AList.update vertex (length hp - 1) (positions h)\<rparr>)"

text \<open>\<open>extractMin\<close> returns the vertex (\<open>None\<close> for \<open>null\<close>) and the heap it leaves.\<close>

definition extractMin :: "MinHeap \<Rightarrow> int option \<times> MinHeap" where
  "extractMin h =
    (if length (heap h) = 0 then (None, h)
     else
       (let min = fst (heap h ! 0);
            last = last (heap h);
            hp = butlast (heap h);
            ps = AList.delete min (positions h)
        in if length hp > 0
           then (Some min, bubbleDown 0 \<lparr>heap = hp[0 := last], positions = AList.update (fst last) 0 ps\<rparr>)
           else (Some min, \<lparr>heap = hp, positions = ps\<rparr>)))"

text \<open>
  \<open>decreaseKey\<close> has no \<open>throw\<close>; \<open>this.heap[idx]\<close> is read at an index taken from
  \<open>positions\<close>, which the class keeps below \<open>heap.length\<close>.
\<close>

definition decreaseKey :: "int \<Rightarrow> number \<Rightarrow> MinHeap \<Rightarrow> MinHeap" where
  "decreaseKey vertex newDistance h =
    (case map_of (positions h) vertex of
       Some idx \<Rightarrow> bubbleUp idx (h\<lparr>heap := (heap h)[idx := (fst (heap h ! idx), newDistance)]\<rparr>)
     | None \<Rightarrow> h)"

definition contains :: "MinHeap \<Rightarrow> int \<Rightarrow> bool" where
  "contains h vertex = (map_of (positions h) vertex \<noteq> None)"

definition isEmpty :: "MinHeap \<Rightarrow> bool" where
  "isEmpty h = (length (heap h) = 0)"

section \<open>AdaptiveFrontier.ts\<close>

text \<open>
  \<open>elements\<close> is a \<open>Map<number, number>\<close>: an association list with distinct keys in
  insertion order. \<open>Array.prototype.sort\<close> is stable and the comparator
  \<open>a[1] - b[1]\<close> orders by stored distance (\<open>Infinity - Infinity\<close> is \<open>NaN\<close>, which
  sort treats as equal), so the sorted array is \<open>sort_key snd\<close>.
\<close>

type_synonym AdaptiveFrontier = "(int \<times> number) list"

definition AdaptiveFrontier_insert :: "int \<Rightarrow> number \<Rightarrow> AdaptiveFrontier \<Rightarrow> AdaptiveFrontier" where
  "AdaptiveFrontier_insert vertex distance f =
    (case map_of f vertex of
       None \<Rightarrow> AList.update vertex distance f
     | Some d \<Rightarrow> if d > distance then AList.update vertex distance f else f)"

definition pull :: "nat \<Rightarrow> AdaptiveFrontier \<Rightarrow> (int list \<times> number) \<times> AdaptiveFrontier" where
  "pull count' f =
    (if length f = 0 then (([], Infinity), f)
     else
       (let sorted = sort_key snd f;
            toReturn = min count' (length sorted);
            vertices = map fst (take toReturn sorted);
            upperBound = (if toReturn < length sorted then snd (sorted ! toReturn) else Infinity)
        in ((vertices, upperBound), filter (\<lambda>e. fst e \<notin> set vertices) f)))"

definition hasElements :: "AdaptiveFrontier \<Rightarrow> bool" where
  "hasElements f = (length f > 0)"

section \<open>NewSSSP.ts\<close>

text \<open>
  The arrays \<open>dist\<close>, \<open>pred\<close> and \<open>complete\<close> of the class are association lists
  from index to value: a read at an index never written is \<open>undefined\<close> (\<open>None\<close>),
  a write at a new index adds it. \<open>complete\<close> is only ever tested for truth, so
  \<open>undefined\<close> reads as \<open>False\<close>. The graph and the parameters \<open>k\<close>, \<open>t\<close> never
  change during a solve and are passed as arguments; the step log and the counters
  (\<open>steps\<close>, \<open>operations\<close>, \<open>relaxations\<close>, \<open>pivotsCount\<close>) are write-only and left out.
\<close>

record tables =
  distArr :: "(int \<times> number) list"
  predArr :: "(int \<times> int) list"
  completeArr :: "(int \<times> bool) list"

definition getDist :: "tables \<Rightarrow> int \<Rightarrow> number option" where
  "getDist st v = map_of (distArr st) v"

definition isComplete :: "tables \<Rightarrow> int \<Rightarrow> bool" where
  "isComplete st v = (map_of (completeArr st) v = Some True)"

definition setDist :: "int \<Rightarrow> number \<Rightarrow> tables \<Rightarrow> tables" where
  "setDist v d st = st\<lparr>distArr := AList.update v d (distArr st)\<rparr>"

definition setPred :: "int \<Rightarrow> int \<Rightarrow> tables \<Rightarrow> tables" where
  "setPred v u st = st\<lparr>predArr := AList.update v u (predArr st)\<rparr>"

definition setComplete :: "int \<Rightarrow> tables \<Rightarrow> tables" where
  "setComplete v st = st\<lparr>completeArr := AList.update v True (completeArr st)\<rparr>"

text \<open>The constructor: three arrays of length \<open>n\<close>.\<close>

definition newTables :: "nat \<Rightarrow> tables" where
  "newTables n =
    \<lparr>distArr = map (\<lambda>i. (int i, Infinity)) [0..<n],
     predArr = map (\<lambda>i. (int i, - 1)) [0..<n],
     completeArr = map (\<lambda>i. (int i, False)) [0..<n]\<rparr>"

text \<open>
  \<open>k = max(2, floor(n^(1/3)))\<close>, \<open>t = max(2, floor(n^(2/3)))\<close> and
  \<open>levels = ceil(log(n) / t)\<close>, read over the reals. \<open>Math.log(0)\<close> is \<open>-Infinity\<close>,
  and so is \<open>levels\<close> for a graph with no node. \<open>Math.pow\<close> works on doubles, and at a
  perfect cube its result can lie just below the exact root
  (\<open>Math.pow(8, 2/3) = 3.9999999999999996\<close>), so that the source has \<open>t = 3\<close> for \<open>n = 8\<close>
  where \<open>t_of 8 = 4\<close>. The two agree for \<open>n = 2\<close> and \<open>n = 10\<close>, the sizes for which the
  parameters are computed below. Wherever possible the theorems are stated for
  arbitrary \<open>k\<close>, \<open>t\<close> and level.
\<close>

definition k_of :: "nat \<Rightarrow> nat" where
  "k_of n = max 2 (nat \<lfloor>real n powr (1 / 3)\<rfloor>)"

definition t_of :: "nat \<Rightarrow> nat" where
  "t_of n = max 2 (nat \<lfloor>real n powr (2 / 3)\<rfloor>)"

datatype level = NegInfinity | Level nat

definition levels_of :: "nat \<Rightarrow> level" where
  "levels_of n = (if n = 0 then NegInfinity else Level (nat \<lceil>ln (real n) / real (t_of n)\<rceil>))"

subsection \<open>Sets in insertion order\<close>

definition setAdd :: "'a \<Rightarrow> 'a list \<Rightarrow> 'a list" where
  "setAdd x xs = (if x \<in> set xs then xs else xs @ [x])"

definition newSet :: "'a list \<Rightarrow> 'a list" where
  "newSet xs = foldl (\<lambda>acc x. setAdd x acc) [] xs"

subsection \<open>findPivots\<close>

text \<open>The body of the loop over the neighbors of \<open>u\<close>, on \<open>(tables, nextLayer, W)\<close>.\<close>

definition findPivots_edge ::
  "number \<Rightarrow> int \<Rightarrow> tables \<times> int list \<times> int list \<Rightarrow> int \<times> int \<Rightarrow> tables \<times> int list \<times> int list" where
  "findPivots_edge B u acc e =
    (case acc of (st, nextLayer, W) \<Rightarrow>
     case e of (v, weight) \<Rightarrow>
     (case (getDist st u, getDist st v) of
        (Some du, Some dv) \<Rightarrow>
          (let newDist = plus_weight du weight in
           if newDist \<le> dv \<and> newDist < B
           then ((if newDist < dv then setPred v u (setDist v newDist st) else st),
                 setAdd v nextLayer, setAdd v W)
           else acc)
      | _ \<Rightarrow> acc))"

definition findPivots_vertex ::
  "Graph \<Rightarrow> number \<Rightarrow> tables \<times> int list \<times> int list \<Rightarrow> int \<Rightarrow> tables \<times> int list \<times> int list" where
  "findPivots_vertex g B acc u =
    (if \<not> isComplete (fst acc) u then acc
     else foldl (findPivots_edge B u) acc (neighborsOf g u))"

text \<open>
  The \<open>k\<close> rounds, counted down; the flag tells whether the early return was taken.
\<close>

fun findPivots_rounds ::
  "Graph \<Rightarrow> nat \<Rightarrow> number \<Rightarrow> int list \<Rightarrow> nat \<Rightarrow> int list \<Rightarrow> int list \<Rightarrow> tables
     \<Rightarrow> bool \<times> int list \<times> tables" where
  "findPivots_rounds g k B S 0 layer W st = (False, W, st)"
| "findPivots_rounds g k B S (Suc r) layer W st =
    (case foldl (findPivots_vertex g B) (st, [], W) layer of
       (st', nextLayer, W') \<Rightarrow>
         if length W' > k * length S then (True, W', st')
         else findPivots_rounds g k B S r nextLayer W' st')"

text \<open>
  Following predecessors from \<open>root\<close> (written \<open>rt\<close>). \<open>pred[root]\<close> may be
  \<open>undefined\<close>, which is not \<open>-1\<close>: \<open>root\<close> then becomes \<open>undefined\<close> and stays so until the loop ends two
  rounds later; the result is \<open>None\<close>.
\<close>

function walk :: "(int \<times> int) list \<Rightarrow> int list \<Rightarrow> int \<Rightarrow> int list \<Rightarrow> int option" where
  "walk pr roots rt visited =
    (case map_of pr rt of
       None \<Rightarrow> (if rt \<in> set visited then Some rt else None)
     | Some p \<Rightarrow>
         if p \<noteq> - 1 \<and> rt \<notin> set visited
         then (if p \<in> set roots then Some p else walk pr roots p (rt # visited))
         else Some rt)"
  by pat_completeness auto
termination
proof (relation "measure (\<lambda>(pr, roots, rt, visited). card (fst ` set pr - set visited))")
  show "wf (measure (\<lambda>(pr, roots, rt, visited). card (fst ` set pr - set visited)))"
    by simp
next
  fix pr :: "(int \<times> int) list" and roots rt visited p
  assume a: "map_of pr rt = Some p" "p \<noteq> - 1 \<and> rt \<notin> set visited"
  then have "rt \<in> fst ` set pr"
    by (force dest: map_of_SomeD)
  then have "fst ` set pr - set (rt # visited) \<subset> fst ` set pr - set visited"
    using a by auto
  then have "card (fst ` set pr - set (rt # visited)) < card (fst ` set pr - set visited)"
    by (intro psubset_card_mono) auto
  then show "((pr, roots, p, rt # visited), (pr, roots, rt, visited))
      \<in> measure (\<lambda>(pr, roots, rt, visited). card (fst ` set pr - set visited))"
    by simp
qed

declare walk.simps [simp del]

definition treeSizeOf :: "(int \<times> nat) list \<Rightarrow> int \<Rightarrow> nat" where
  "treeSizeOf treeSize r = (case map_of treeSize r of None \<Rightarrow> 0 | Some c \<Rightarrow> c)"

definition findLargeTreeRoots :: "tables \<Rightarrow> int list \<Rightarrow> int list \<Rightarrow> nat \<Rightarrow> int list" where
  "findLargeTreeRoots st S W k =
    (let roots = newSet (filter (isComplete st) S);
         treeSize = foldl (\<lambda>treeSize v.
             case walk (predArr st) roots v [] of
               Some rt \<Rightarrow> if rt \<in> set roots
                          then AList.update rt (treeSizeOf treeSize rt + 1) treeSize
                          else treeSize
             | None \<Rightarrow> treeSize) [] W;
         pivots = filter (\<lambda>r. treeSizeOf treeSize r \<ge> k) roots
     in if length pivots > 0 then pivots else take 1 roots)"

definition findPivots ::
  "Graph \<Rightarrow> nat \<Rightarrow> number \<Rightarrow> int list \<Rightarrow> tables \<Rightarrow> (int list \<times> int list) \<times> tables" where
  "findPivots g k B S st =
    (case findPivots_rounds g k B S k (newSet S) (newSet S) st of
       (early, W, st') \<Rightarrow>
         if early then ((S, W), st')
         else ((findLargeTreeRoots st' S W k, W), st'))"

subsection \<open>baseCase\<close>

text \<open>The body of the loop over the neighbors of \<open>u\<close>, on \<open>(tables, heap, inHeap)\<close>.\<close>

definition baseCase_edge ::
  "number \<Rightarrow> int \<Rightarrow> tables \<times> MinHeap \<times> int list \<Rightarrow> int \<times> int \<Rightarrow> tables \<times> MinHeap \<times> int list" where
  "baseCase_edge B u acc e =
    (case acc of (st, h, inHeap) \<Rightarrow>
     case e of (v, weight) \<Rightarrow>
     (case (getDist st u, getDist st v) of
        (Some du, Some dv) \<Rightarrow>
          (let newDist = plus_weight du weight in
           if newDist < dv \<and> newDist < B
           then (setPred v u (setDist v newDist st),
                 (if v \<in> set inHeap then (decreaseKey v newDist h, inHeap)
                  else (MinHeap_insert v newDist h, setAdd v inHeap)))
           else acc)
      | _ \<Rightarrow> acc))"

text \<open>
  The \<open>while (!heap.isEmpty())\<close> loop on \<open>(heap, inHeap, U, tables)\<close>. It need not end
  (a cycle of negative weight is relaxed for ever): \<open>None\<close> is "does not return".
  \<open>extractMin\<close> gives a vertex on a heap that is not empty; the \<open>null\<close> branch is not
  reached.
\<close>

partial_function (option) baseCase_loop ::
  "Graph \<Rightarrow> number \<Rightarrow> MinHeap \<times> int list \<times> int list \<times> tables \<Rightarrow> (int list \<times> tables) option" where
  "baseCase_loop g B s =
    (case s of (h, inHeap, U, st) \<Rightarrow>
     if isEmpty h then Some (U, st)
     else
       (case extractMin h of
          (None, h1) \<Rightarrow> None
        | (Some u, h1) \<Rightarrow>
            (case foldl (baseCase_edge B u) (setComplete u st, h1, removeAll u inHeap)
                        (neighborsOf g u) of
               (st2, h2, inHeap2) \<Rightarrow> baseCase_loop g B (h2, inHeap2, U @ [u], st2))))"

declare baseCase_loop.simps [code]

text \<open>
  \<open>this.dist[source]\<close> may be \<open>undefined\<close>: the seed is then extracted in the first
  round of the loop and the description of its step, \<open>this.dist[u].toFixed(1)\<close>, throws.
  Every other vertex enters the heap with the number just written to its \<open>dist\<close> entry.
\<close>

definition baseCase ::
  "Graph \<Rightarrow> number \<Rightarrow> int list \<Rightarrow> tables \<Rightarrow> (error + (number \<times> int list) \<times> tables) option" where
  "baseCase g B S st =
    (case S of
       [] \<Rightarrow> Some (Inr ((B, []), st))
     | source # rest \<Rightarrow>
         (case getDist st source of
            None \<Rightarrow> Some (Inl TypeError)
          | Some d \<Rightarrow>
              (case baseCase_loop g B (MinHeap_insert source d newMinHeap, [source], [], st) of
                 None \<Rightarrow> None
               | Some (U, st') \<Rightarrow> Some (Inr ((B, U), st')))))"

subsection \<open>relaxEdges\<close>

definition relaxEdges_edge ::
  "number \<Rightarrow> number \<Rightarrow> int \<Rightarrow> tables \<times> AdaptiveFrontier \<Rightarrow> int \<times> int \<Rightarrow> tables \<times> AdaptiveFrontier" where
  "relaxEdges_edge Bi B u acc e =
    (case acc of (st, frontier) \<Rightarrow>
     case e of (v, weight) \<Rightarrow>
     (case (getDist st u, getDist st v) of
        (Some du, Some dv) \<Rightarrow>
          (let newDist = plus_weight du weight in
           if newDist \<le> dv \<and> newDist < B
           then (let st' = (if newDist < dv then setPred v u (setDist v newDist st) else st)
                 in (st', if \<not> isComplete st' v \<and> (Bi = Infinity \<or> newDist \<ge> Bi)
                          then AdaptiveFrontier_insert v newDist frontier else frontier))
           else acc)
      | _ \<Rightarrow> acc))"

definition relaxEdges_vertex ::
  "Graph \<Rightarrow> number \<Rightarrow> number \<Rightarrow> tables \<times> AdaptiveFrontier \<Rightarrow> int \<Rightarrow> tables \<times> AdaptiveFrontier" where
  "relaxEdges_vertex g Bi B acc u =
    foldl (relaxEdges_edge Bi B u) (setComplete u (fst acc), snd acc) (neighborsOf g u)"

definition relaxEdges ::
  "Graph \<Rightarrow> int list \<Rightarrow> number \<Rightarrow> number \<Rightarrow> tables \<times> AdaptiveFrontier \<Rightarrow> tables \<times> AdaptiveFrontier" where
  "relaxEdges g vertices Bi B acc = foldl (relaxEdges_vertex g Bi B) acc vertices"

subsection \<open>BMSSP\<close>

text \<open>
  The constructor of \<open>AdaptiveFrontier\<close> stores \<open>dist[v]\<close> for each initial vertex.
  The stored value is typed \<open>number\<close>; where \<open>dist[v]\<close> is \<open>undefined\<close> the comparator
  of \<open>pull\<close> yields \<open>NaN\<close> and the order of the sort is left to the engine, so the
  model has no result there (\<open>None\<close>).
\<close>

fun newAdaptiveFrontier :: "int list \<Rightarrow> (int \<times> number) list \<Rightarrow> AdaptiveFrontier \<Rightarrow> AdaptiveFrontier option" where
  "newAdaptiveFrontier [] ds f = Some f"
| "newAdaptiveFrontier (v # vs) ds f =
    (case map_of ds v of
       None \<Rightarrow> None
     | Some d \<Rightarrow> newAdaptiveFrontier vs ds (AList.update v d f))"

text \<open>
  The pull loop of a level above 0 on \<open>(U, B_prime, frontier, tables)\<close>; \<open>rec\<close> is
  \<open>BMSSP\<close> one level down, \<open>cap\<close> is \<open>k * 2^(l*t)\<close> and \<open>pullCount\<close> is \<open>2^((l-1)*t)\<close>.
\<close>

partial_function (option) BMSSP_loop ::
  "(number \<Rightarrow> int list \<Rightarrow> tables \<Rightarrow> (error + (number \<times> int list) \<times> tables) option) \<Rightarrow> Graph \<Rightarrow> nat \<Rightarrow> nat
     \<Rightarrow> number \<Rightarrow> int list \<times> number \<times> AdaptiveFrontier \<times> tables
     \<Rightarrow> (error + int list \<times> number \<times> tables) option" where
  "BMSSP_loop rec g cap pullCount B s =
    (case s of (U, B_prime, frontier, st) \<Rightarrow>
     if length U < cap \<and> hasElements frontier then
       (case pull pullCount frontier of
          ((Si, Bi), frontier1) \<Rightarrow>
            if length Si = 0 then Some (Inr (U, B_prime, st))
            else
              (case rec Bi Si st of
                 None \<Rightarrow> None
               | Some (Inl e) \<Rightarrow> Some (Inl e)
               | Some (Inr ((subB, subU), st1)) \<Rightarrow>
                   (case relaxEdges g subU Bi B (st1, frontier1) of
                      (st2, frontier2) \<Rightarrow>
                        if length (U @ subU) \<ge> cap
                        then Some (Inr (U @ subU, min B_prime subB, st2))
                        else BMSSP_loop rec g cap pullCount B
                               (U @ subU, min B_prime subB, frontier2, st2))))
     else Some (Inr (U, B_prime, st)))"

declare BMSSP_loop.simps [code]

text \<open>The final loop over \<open>W\<close>.\<close>

definition mergeW :: "tables \<Rightarrow> number \<Rightarrow> int list \<Rightarrow> int list \<Rightarrow> int list" where
  "mergeW st B_prime W U =
    foldl (\<lambda>U v. case getDist st v of
                    Some d \<Rightarrow> if d < B_prime \<and> v \<notin> set U then U @ [v] else U
                  | None \<Rightarrow> U) U W"

text \<open>
  \<open>BMSSP\<close> for a level \<open>l \<ge> 0\<close>. A recursive call is made with \<open>l - 1\<close> only after a
  pull of \<open>2^((l-1)*t) \<ge> 1\<close> vertices, that is from \<open>l \<ge> 1\<close>.
\<close>

primrec BMSSP ::
  "Graph \<Rightarrow> nat \<Rightarrow> nat \<Rightarrow> nat \<Rightarrow> number \<Rightarrow> int list \<Rightarrow> tables
     \<Rightarrow> (error + (number \<times> int list) \<times> tables) option" where
  "BMSSP g k t 0 = (\<lambda>B S st. baseCase g B S st)"
| "BMSSP g k t (Suc l) = (\<lambda>B S st.
     case findPivots g k B S st of
       ((pivots, W), st1) \<Rightarrow>
         (case newAdaptiveFrontier pivots (distArr st1) [] of
            None \<Rightarrow> None
          | Some frontier \<Rightarrow>
              (case BMSSP_loop (BMSSP g k t l) g (k * 2 ^ (Suc l * t)) (2 ^ (l * t)) B
                      ([], B, frontier, st1) of
                 None \<Rightarrow> None
               | Some (Inl e) \<Rightarrow> Some (Inl e)
               | Some (Inr (U, B_prime, st2)) \<Rightarrow>
                   Some (Inr ((B_prime, mergeW st2 B_prime W U), st2)))))"

text \<open>
  \<open>BMSSP(-Infinity, B, S)\<close>, the call made for a graph with no node: \<open>l === 0\<close> is
  false, the cap \<open>k * 2^(-Infinity)\<close> is 0 and the pull loop is not entered.
\<close>

definition BMSSP_NegInfinity ::
  "Graph \<Rightarrow> nat \<Rightarrow> number \<Rightarrow> int list \<Rightarrow> tables \<Rightarrow> (error + (number \<times> int list) \<times> tables) option" where
  "BMSSP_NegInfinity g k B S st =
    (case findPivots g k B S st of
       ((pivots, W), st1) \<Rightarrow>
         (case newAdaptiveFrontier pivots (distArr st1) [] of
            None \<Rightarrow> None
          | Some frontier \<Rightarrow> Some (Inr ((B, mergeW st1 B W []), st1))))"

subsection \<open>solve\<close>

text \<open>
  The walk back from the destination. Once \<open>pred[current]\<close> is \<open>undefined\<close> the loop
  never ends, as \<open>undefined !== -1\<close> and \<open>pred[undefined]\<close> is \<open>undefined\<close>. When the
  loop ends, the last step is described with \<open>this.dist[destination].toFixed(1)\<close>, which
  throws if \<open>dist[destination]\<close> is \<open>undefined\<close> (as for the destination \<open>-1\<close>, for which
  the loop is not entered).
\<close>

partial_function (option) buildPath :: "(int \<times> int) list \<Rightarrow> int \<Rightarrow> int list \<Rightarrow> int list option" where
  "buildPath pr current shortestPath =
    (if current = - 1 then Some shortestPath
     else (case map_of pr current of
             None \<Rightarrow> None
           | Some p \<Rightarrow> buildPath pr p (current # shortestPath)))"

declare buildPath.simps [code]

record AlgorithmResult =
  distances :: "(int \<times> number option) list"
  predecessors :: "(int \<times> int option) list"
  shortestPath :: "int list"

definition pathTo :: "tables \<Rightarrow> int option \<Rightarrow> (error + int list) option" where
  "pathTo st destination =
    (case destination of
       None \<Rightarrow> Some (Inr [])
     | Some d \<Rightarrow>
         if getDist st d \<noteq> Some Infinity
         then (case buildPath (predArr st) d [] of
                 None \<Rightarrow> None
               | Some path \<Rightarrow> if getDist st d = None then Some (Inl TypeError) else Some (Inr path))
         else Some (Inr []))"

definition solve_with ::
  "nat \<Rightarrow> nat \<Rightarrow> level \<Rightarrow> Graph \<Rightarrow> int \<Rightarrow> int option \<Rightarrow> (error + AlgorithmResult) option" where
  "solve_with k t levels g source destination =
    (let n = length (nodes g);
         st0 = setComplete source (setDist source (Fin 0) (newTables n))
     in case (case levels of
                NegInfinity \<Rightarrow> BMSSP_NegInfinity g k Infinity [source] st0
              | Level l \<Rightarrow> BMSSP g k t l Infinity [source] st0) of
          None \<Rightarrow> None
        | Some (Inl e) \<Rightarrow> Some (Inl e)
        | Some (Inr (r, st)) \<Rightarrow>
            (case pathTo st destination of
               None \<Rightarrow> None
             | Some (Inl e) \<Rightarrow> Some (Inl e)
             | Some (Inr path) \<Rightarrow>
                 Some (Inr \<lparr>distances = map (\<lambda>i. (int i, getDist st (int i))) [0..<n],
                            predecessors = map (\<lambda>i. (int i, map_of (predArr st) (int i))) [0..<n],
                            shortestPath = path\<rparr>)))"

definition solve :: "Graph \<Rightarrow> int \<Rightarrow> int option \<Rightarrow> (error + AlgorithmResult) option" where
  "solve g source destination =
    (let n = length (nodes g) in solve_with (k_of n) (t_of n) (levels_of n) g source destination)"

section \<open>Dijkstra.ts\<close>

text \<open>
  \<open>dist\<close>, \<open>visited\<close> and \<open>pred\<close> are maps keyed by node id (written \<open>distM\<close>,
  \<open>predM\<close>). The body of the loop over the neighbors of \<open>u\<close> works on
  \<open>(dist, pred, heap)\<close>.
\<close>

definition dijkstra_edge ::
  "(int \<times> bool) list \<Rightarrow> int \<Rightarrow> (int \<times> number) list \<times> (int \<times> int) list \<times> MinHeap \<Rightarrow> int \<times> int
     \<Rightarrow> (int \<times> number) list \<times> (int \<times> int) list \<times> MinHeap" where
  "dijkstra_edge visited u acc e =
    (case acc of (distM, predM, h) \<Rightarrow>
     case e of (v, weight) \<Rightarrow>
     (case (map_of distM u, map_of distM v) of
        (Some du, Some dv) \<Rightarrow>
          (let newDist = plus_weight du weight in
           if newDist < dv
           then (AList.update v newDist distM, AList.update v u predM,
                 (if contains h v then decreaseKey v newDist h
                  else if map_of visited v \<noteq> Some True then MinHeap_insert v newDist h
                  else h))
           else acc)
      | _ \<Rightarrow> acc))"

text \<open>
  The main loop on \<open>(heap, distM, visited, predM)\<close>, with its \<open>continue\<close> on a visited
  vertex and its \<open>break\<close> at the destination.
\<close>

partial_function (option) dijkstra_loop ::
  "Graph \<Rightarrow> int option \<Rightarrow> MinHeap \<times> (int \<times> number) list \<times> (int \<times> bool) list \<times> (int \<times> int) list
     \<Rightarrow> ((int \<times> number) list \<times> (int \<times> bool) list \<times> (int \<times> int) list) option" where
  "dijkstra_loop g destination s =
    (case s of (h, distM, visited, predM) \<Rightarrow>
     if isEmpty h then Some (distM, visited, predM)
     else
       (case extractMin h of
          (None, h1) \<Rightarrow> None
        | (Some u, h1) \<Rightarrow>
            if map_of visited u = Some True then dijkstra_loop g destination (h1, distM, visited, predM)
            else
              (let visited1 = AList.update u True visited in
               if destination = Some u then Some (distM, visited1, predM)
               else
                 (case foldl (dijkstra_edge visited1 u) (distM, predM, h1) (neighborsOf g u) of
                    (distM2, predM2, h2) \<Rightarrow> dijkstra_loop g destination (h2, distM2, visited1, predM2)))))"

declare dijkstra_loop.simps [code]

definition dijkstra :: "Graph \<Rightarrow> int \<Rightarrow> int option \<Rightarrow> AlgorithmResult option" where
  "dijkstra g source destination =
    (let distM = foldl (\<lambda>m v. AList.update v Infinity m) [] (nodes g);
         visited = foldl (\<lambda>m v. AList.update v False m) [] (nodes g);
         predM = foldl (\<lambda>m v. AList.update v (- 1) m) [] (nodes g);
         distM = AList.update source (Fin 0) distM;
         h = MinHeap_insert source (Fin 0) newMinHeap
     in case dijkstra_loop g destination (h, distM, visited, predM) of
          None \<Rightarrow> None
        | Some (distM, visited, predM) \<Rightarrow>
            (case (case destination of
                     None \<Rightarrow> Some []
                   | Some d \<Rightarrow> if map_of distM d \<noteq> Some Infinity
                               then buildPath predM d [] else Some []) of
               None \<Rightarrow> None
             | Some path \<Rightarrow>
                 Some \<lparr>distances = map (\<lambda>(v, d). (v, Some d)) distM,
                       predecessors = map (\<lambda>(v, u). (v, Some u)) predM,
                       shortestPath = path\<rparr>))"

section \<open>Predicates used in the statements\<close>

subsection \<open>The heap\<close>

text \<open>
  The heap order of the array, and the two halves of the link between \<open>heap\<close> and
  \<open>positions\<close>: an entry of \<open>positions\<close> points at a node of its vertex, and every node
  has its index in \<open>positions\<close>.
\<close>

definition heap_ordered :: "(int \<times> number) list \<Rightarrow> bool" where
  "heap_ordered xs = (\<forall>i < length xs. 0 < i \<longrightarrow> snd (xs ! ((i - 1) div 2)) \<le> snd (xs ! i))"

definition positions_valid :: "MinHeap \<Rightarrow> bool" where
  "positions_valid h =
    (\<forall>v i. map_of (positions h) v = Some i \<longrightarrow> i < length (heap h) \<and> fst (heap h ! i) = v)"

definition positions_complete :: "MinHeap \<Rightarrow> bool" where
  "positions_complete h = (\<forall>i < length (heap h). map_of (positions h) (fst (heap h ! i)) = Some i)"

definition heap_inv :: "MinHeap \<Rightarrow> bool" where
  "heap_inv h = (heap_ordered (heap h) \<and> positions_valid h)"

definition heap_wf :: "MinHeap \<Rightarrow> bool" where
  "heap_wf h = (heap_inv h \<and> positions_complete h)"

text \<open>The index \<open>smallest\<close> that one round of \<open>bubbleDown\<close> computes.\<close>

definition smallestOf :: "(int \<times> number) list \<Rightarrow> nat \<Rightarrow> nat" where
  "smallestOf xs idx =
    (let s = (if 2 * idx + 1 < length xs \<and> snd (xs ! (2 * idx + 1)) < snd (xs ! idx)
              then 2 * idx + 1 else idx)
     in if 2 * idx + 2 < length xs \<and> snd (xs ! (2 * idx + 2)) < snd (xs ! s)
        then 2 * idx + 2 else s)"

text \<open>
  Sequences of \<open>insert\<close> and \<open>decreaseKey\<close> calls. A call \<open>decreaseKey(v, d)\<close> lowers
  when \<open>v\<close> is absent or \<open>d\<close> is at most the distance stored for \<open>v\<close>.
\<close>

datatype heap_op = Insert int number | DecreaseKey int number

fun apply_op :: "heap_op \<Rightarrow> MinHeap \<Rightarrow> MinHeap" where
  "apply_op (Insert v d) h = MinHeap_insert v d h"
| "apply_op (DecreaseKey v d) h = decreaseKey v d h"

definition apply_ops :: "heap_op list \<Rightarrow> MinHeap \<Rightarrow> MinHeap" where
  "apply_ops ops h = foldl (\<lambda>h op. apply_op op h) h ops"

fun lowers :: "heap_op \<Rightarrow> MinHeap \<Rightarrow> bool" where
  "lowers (Insert v d) h = True"
| "lowers (DecreaseKey v d) h =
    (case map_of (positions h) v of None \<Rightarrow> True | Some i \<Rightarrow> d \<le> snd (heap h ! i))"

fun all_lower :: "heap_op list \<Rightarrow> MinHeap \<Rightarrow> bool" where
  "all_lower [] h = True"
| "all_lower (op # ops) h = (lowers op h \<and> all_lower ops (apply_op op h))"

text \<open>
  Up to \<open>n\<close> calls of \<open>extractMin\<close>: each extracted vertex with the distance stored for
  it when it was extracted.
\<close>

fun extractMany :: "nat \<Rightarrow> MinHeap \<Rightarrow> (int \<times> number) list" where
  "extractMany 0 h = []"
| "extractMany (Suc n) h =
    (case extractMin h of
       (None, h') \<Rightarrow> []
     | (Some v, h') \<Rightarrow> (v, snd (heap h ! 0)) # extractMany n h')"

subsection \<open>The frontier\<close>

text \<open>\<open>elements.has(v)\<close>\<close>

definition frontier_has :: "AdaptiveFrontier \<Rightarrow> int \<Rightarrow> bool" where
  "frontier_has f v = (map_of f v \<noteq> None)"

subsection \<open>The distance table\<close>

text \<open>
  Between two states of the tables, every entry of \<open>dist\<close> is unchanged or replaced by
  a strictly smaller number.
\<close>

definition dist_decreases :: "tables \<Rightarrow> tables \<Rightarrow> bool" where
  "dist_decreases st st' =
    (\<forall>v. getDist st' v = getDist st v \<or>
         (\<exists>d d'. getDist st v = Some d \<and> getDist st' v = Some d' \<and> d' < d))"

text \<open>
  The same, with the other two tables: \<open>pred\<close> differs only where \<open>dist\<close> is strictly
  smaller, and a completion flag that is set stays set.
\<close>

definition relaxed :: "tables \<Rightarrow> tables \<Rightarrow> bool" where
  "relaxed st st' =
    (dist_decreases st st' \<and>
     (\<forall>x. map_of (predArr st') x \<noteq> map_of (predArr st) x \<longrightarrow>
          (\<exists>d d'. getDist st x = Some d \<and> getDist st' x = Some d' \<and> d' < d)) \<and>
     (\<forall>x. isComplete st x \<longrightarrow> isComplete st' x))"

text \<open>
  A vertex \<open>x\<close> was improved below \<open>B\<close> between two states; and the invariant of the
  loop of \<open>baseCase\<close> started in \<open>st\<close> with seed \<open>s0\<close>: every vertex extracted so far or
  still in the heap is the seed or was improved below \<open>B\<close>, and the completion flags
  are the initial ones and those of the extracted vertices.
\<close>

definition improved :: "number \<Rightarrow> tables \<Rightarrow> tables \<Rightarrow> int \<Rightarrow> bool" where
  "improved B st st' x =
    (\<exists>d d'. getDist st x = Some d \<and> getDist st' x = Some d' \<and> d' < d \<and> d' < B)"

definition baseCase_inv :: "number \<Rightarrow> int \<Rightarrow> tables \<Rightarrow> int list \<Rightarrow> MinHeap \<Rightarrow> tables \<Rightarrow> bool" where
  "baseCase_inv B s0 st U h cur =
    (positions_valid h \<and> dist_decreases st cur \<and>
     (\<forall>x \<in> set U \<union> fst ` set (heap h). x = s0 \<or> improved B st cur x) \<and>
     (\<forall>x. isComplete cur x = (isComplete st x \<or> x \<in> set U)))"

text \<open>The graph of two nodes and one edge \<open>0 \<rightarrow> 1\<close> of weight \<open>w\<close>.\<close>

definition edgeGraph :: "int \<Rightarrow> Graph" where
  "edgeGraph w = toGraph (addEdge 0 1 w (addNode (addNode newGraphClass)))"

text \<open>
  Tables of a graph of two nodes in a solve from source 0: the entries of vertex 1 are
  the parameters.
\<close>

definition tbl :: "number \<Rightarrow> int \<Rightarrow> bool \<Rightarrow> tables" where
  "tbl d1 p1 c1 =
    \<lparr>distArr = [(0, Fin 0), (1, d1)], predArr = [(0, - 1), (1, p1)],
     completeArr = [(0, True), (1, c1)]\<rparr>"

subsection \<open>The rounds of findPivots\<close>

text \<open>
  One relaxation round of \<open>findPivots\<close> on \<open>(tables, layer, W)\<close>, giving
  \<open>(tables, nextLayer, W)\<close>, and the state after \<open>i\<close> rounds when none of them leaves the
  loop: the threshold \<open>|W| > k * |S|\<close> is then read off these states.
\<close>

definition findPivots_round ::
  "Graph \<Rightarrow> number \<Rightarrow> tables \<times> int list \<times> int list \<Rightarrow> tables \<times> int list \<times> int list" where
  "findPivots_round g B s = (case s of (st, layer, W) \<Rightarrow> foldl (findPivots_vertex g B) (st, [], W) layer)"

fun afterRounds ::
  "Graph \<Rightarrow> number \<Rightarrow> nat \<Rightarrow> tables \<times> int list \<times> int list \<Rightarrow> tables \<times> int list \<times> int list" where
  "afterRounds g B 0 s = s"
| "afterRounds g B (Suc i) s = afterRounds g B i (findPivots_round g B s)"

text \<open>
  The size of the subtree of the root \<open>r\<close>: the number of vertices of \<open>W\<close> whose walk along
  the predecessors ends in \<open>r\<close>.
\<close>

definition subtreeSize :: "tables \<Rightarrow> int list \<Rightarrow> int list \<Rightarrow> int \<Rightarrow> nat" where
  "subtreeSize st roots W r = length (filter (\<lambda>v. walk (predArr st) roots v [] = Some r) W)"

section \<open>The parameters of the example graph\<close>

lemma floor_powr_eq:
  fixes x a :: real and m :: nat
  assumes "0 < a" "real m powr (1 / a) \<le> x" "x < real (m + 1) powr (1 / a)"
  shows "nat \<lfloor>x powr a\<rfloor> = m"
proof -
  have m: "real m = (real m powr (1 / a)) powr a"
    using assms(1) by (simp add: powr_powr)
  have m1: "real (m + 1) = (real (m + 1) powr (1 / a)) powr a"
    using assms(1) by (simp add: powr_powr)
  have "(real m powr (1 / a)) powr a \<le> x powr a"
    using assms by (intro powr_mono2) auto
  then have lo: "real m \<le> x powr a" using m by simp
  have "0 \<le> x" using assms(2) powr_ge_zero[of "real m" "1 / a"] by linarith
  then have "x powr a < (real (m + 1) powr (1 / a)) powr a"
    using assms by (intro powr_less_mono2) auto
  then have hi: "x powr a < real (m + 1)" using m1 by simp
  have "\<lfloor>x powr a\<rfloor> = int m"
    using lo hi by (simp add: floor_eq_iff)
  then show ?thesis by simp
qed

text \<open>\<open>floor (n^(p/q)) = m\<close> from \<open>m^q \<le> n^p < (m+1)^q\<close>.\<close>

lemma floor_root:
  fixes n p q m :: nat
  assumes "0 < n" "0 < q" "m ^ q \<le> n ^ p" "n ^ p < (m + 1) ^ q"
  shows "nat \<lfloor>real n powr (real p / real q)\<rfloor> = m"
proof -
  have e: "real n powr (real p / real q) = real (n ^ p) powr (1 / real q)"
    using assms(1) by (simp add: powr_powr flip: powr_realpow)
  have a: "real m powr (1 / (1 / real q)) \<le> real (n ^ p)"
  proof (cases "m = 0")
    case True then show ?thesis using assms(2) by simp
  next
    case False
    then have "real m powr (1 / (1 / real q)) = real (m ^ q)" by (simp add: powr_realpow)
    then show ?thesis using assms(3) by (simp only: of_nat_le_iff)
  qed
  have "real (m + 1) powr (1 / (1 / real q)) = real ((m + 1) ^ q)" by (simp add: powr_realpow)
  then have b: "real (n ^ p) < real (m + 1) powr (1 / (1 / real q))"
    using assms(4) by (simp only: of_nat_less_iff)
  show ?thesis unfolding e using assms(2) a b by (intro floor_powr_eq) auto
qed

lemma k_of_10: "k_of 10 = 2"
  using floor_root[of 10 3 2 1] by (simp add: k_of_def)

lemma t_of_10: "t_of 10 = 4"
  using floor_root[of 10 3 4 2] by (simp add: t_of_def)

lemma levels_of_10: "levels_of 10 = Level 1"
proof -
  have "exp (4::real) = exp 1 ^ 4" by (simp flip: exp_of_nat_mult)
  moreover have "(2::real) \<le> exp 1" using exp_ge_add_one_self[of "1::real"] by simp
  ultimately have "(16::real) \<le> exp 4" using power_mono[of "2::real" "exp 1" 4] by simp
  then have "ln (10::real) \<le> ln (exp 4)" by (subst ln_le_cancel_iff) auto
  then have "ln (10::real) \<le> 4" by simp
  moreover have "0 < ln (10::real)" by simp
  ultimately have "\<lceil>ln (10::real) / 4\<rceil> = 1" by (simp add: ceiling_eq_iff)
  then show ?thesis by (simp add: levels_of_def t_of_10)
qed

lemma example_graph_nodes: "length (nodes (toGraph createExampleGraph)) = 10"
  by code_simp

lemma example_graph_solve_with:
  "solve_with 2 4 (Level 1) (toGraph createExampleGraph) 0 None = Some (Inr
    \<lparr>distances =
       [(0, Some (Fin 0)), (1, Some (Fin 3)), (2, Some (Fin 2)), (3, Some (Fin 8)),
        (4, Some (Fin 12)), (5, Some (Fin 11)), (6, Some (Fin 13)), (7, Some (Fin 14)),
        (8, Some (Fin 16)), (9, Some (Fin 15))],
     predecessors =
       [(0, Some (- 1)), (1, Some 2), (2, Some 0), (3, Some 1), (4, Some 2),
        (5, Some 3), (6, Some 5), (7, Some 3), (8, Some 6), (9, Some 7)],
     shortestPath = []\<rparr>)"
  by code_simp

text \<open>
  Claim C2. On the example graph of \<open>createExampleGraph\<close> (ten nodes, the thirteen
  edges of the scenario), \<open>solve\<close> with source 0 and no destination returns, with
  \<open>k = 2\<close>, \<open>t = 4\<close> and one recursion level, the distances
  \<open>d0 = 0\<close>, \<open>d1 = 3\<close>, \<open>d2 = 2\<close>, \<open>d3 = 8\<close>, \<open>d4 = 12\<close>, \<open>d5 = 11\<close> and \<open>d9 = 15\<close>
  (and \<open>d6 = 13\<close>, \<open>d7 = 14\<close>, \<open>d8 = 16\<close>).
\<close>

theorem example_graph_distances:
  "map_option (map_sum id distances) (solve (toGraph createExampleGraph) 0 None) = Some (Inr
     [(0, Some (Fin 0)), (1, Some (Fin 3)), (2, Some (Fin 2)), (3, Some (Fin 8)),
      (4, Some (Fin 12)), (5, Some (Fin 11)), (6, Some (Fin 13)), (7, Some (Fin 14)),
      (8, Some (Fin 16)), (9, Some (Fin 15))])"
proof -
  have "solve (toGraph createExampleGraph) 0 None =
      solve_with 2 4 (Level 1) (toGraph createExampleGraph) 0 None"
    by (simp only: solve_def Let_def example_graph_nodes k_of_10 t_of_10 levels_of_10)
  then show ?thesis
    by (simp only: example_graph_solve_with option.map map_sum.simps AlgorithmResult.select_convs)
qed

section \<open>AdaptiveFrontier: the contract of pull\<close>

lemma pull_nonempty:
  assumes "f \<noteq> []"
  shows "pull m f =
    ((map fst (take (min m (length f)) (sort_key snd f)),
      (if min m (length f) < length f then snd (sort_key snd f ! min m (length f)) else Infinity)),
     filter (\<lambda>e. fst e \<notin> fst ` set (take (min m (length f)) (sort_key snd f))) f)"
  using assms by (simp add: pull_def Let_def)

lemma sorted_take_drop_le:
  assumes "sorted (map g s)" "a \<in> set (take j s)" "b \<in> set (drop j s)"
  shows "g a \<le> g b"
proof -
  have "sorted (map g (take j s) @ map g (drop j s))"
    using assms(1) by (simp flip: map_append)
  then show ?thesis using assms(2,3) by (auto simp: sorted_append)
qed

lemma sorted_drop_head_le:
  assumes "sorted (map g s)" "b \<in> set (drop j s)"
  shows "j < length s \<and> g (s ! j) \<le> g b"
proof -
  have lt: "j < length s" using assms(2) by (cases "j < length s") auto
  then have d: "drop j s = s ! j # drop (Suc j) s" by (simp add: Cons_nth_drop_Suc)
  have "s ! j \<in> set (take (Suc j) s)" using lt by (simp add: take_Suc_conv_app_nth)
  then have "b \<in> set (drop (Suc j) s) \<Longrightarrow> g (s ! j) \<le> g b"
    using sorted_take_drop_le[OF assms(1)] by blast
  then show ?thesis using lt assms(2) unfolding d by auto
qed

lemma distinct_keys_take_drop:
  assumes "distinct (map fst s)" "a \<in> set (take j s)" "b \<in> set (drop j s)"
  shows "fst a \<noteq> fst b"
proof -
  have "distinct (map fst (take j s) @ map fst (drop j s))"
    using assms(1) by (simp flip: map_append)
  then show ?thesis using assms(2,3) by auto
qed

lemma distinct_keys_sort:
  assumes "distinct (map fst f)"
  shows "distinct (map fst (sort_key snd f))"
  using assms by (simp add: distinct_map)

lemma pull_remaining:
  assumes "distinct (map fst f)"
  shows "set (filter (\<lambda>e. fst e \<notin> fst ` set (take j (sort_key snd f))) f) = set (drop j (sort_key snd f))"
proof -
  let ?s = "sort_key snd f"
  have s: "set f = set (take j ?s) \<union> set (drop j ?s)"
    by (metis append_take_drop_id set_append set_sort)
  have d: "distinct (map fst ?s)" using assms by (rule distinct_keys_sort)
  show ?thesis
  proof (intro set_eqI iffI)
    fix e assume "e \<in> set (filter (\<lambda>e. fst e \<notin> fst ` set (take j ?s)) f)"
    then show "e \<in> set (drop j ?s)" using s by auto
  next
    fix e assume e: "e \<in> set (drop j ?s)"
    then have "fst e \<notin> fst ` set (take j ?s)"
      using distinct_keys_take_drop[OF d] by fastforce
    then show "e \<in> set (filter (\<lambda>e. fst e \<notin> fst ` set (take j ?s)) f)"
      using e s by auto
  qed
qed

text \<open>
  Claim C3. For a frontier (a map: keys distinct) and a count \<open>m\<close>, \<open>pull m\<close>
  returns \<open>min m size\<close> distinct vertices of the frontier and removes exactly them;
  every returned vertex has a stored distance at most that of every vertex left;
  \<open>upperBound\<close> is at most every stored distance left, is one of them when something
  is left (so it is the smallest), and is \<open>Infinity\<close> when nothing is left; on the empty
  frontier the result is \<open>([], Infinity)\<close> for every \<open>m\<close>.
\<close>

theorem pull_contract:
  assumes "distinct (map fst f)"
  shows "(case pull m f of ((vs, ub), f') \<Rightarrow>
      length vs = min m (length f) \<and> distinct vs \<and> set vs \<subseteq> fst ` set f
    \<and> set f' = {e \<in> set f. fst e \<notin> set vs} \<and> distinct (map fst f')
    \<and> (\<forall>a\<in>set f. \<forall>b\<in>set f'. fst a \<in> set vs \<longrightarrow> snd a \<le> snd b)
    \<and> (\<forall>b\<in>set f'. ub \<le> snd b)
    \<and> (f' \<noteq> [] \<longrightarrow> ub \<in> snd ` set f')
    \<and> (f' = [] \<longrightarrow> ub = Infinity))
    \<and> pull m [] = (([], Infinity), [])"
proof (cases "f = []")
  case True
  then show ?thesis by (simp add: pull_def)
next
  case False
  let ?s = "sort_key snd f"
  let ?j = "min m (length f)"
  let ?vs = "map fst (take ?j ?s)"
  let ?ub = "if ?j < length f then snd (?s ! ?j) else Infinity"
  let ?f' = "filter (\<lambda>e. fst e \<notin> fst ` set (take ?j ?s)) f"
  have p: "pull m f = ((?vs, ?ub), ?f')" using False by (rule pull_nonempty)
  have d: "distinct (map fst ?s)" using assms by (rule distinct_keys_sort)
  have srt: "sorted (map snd ?s)" by (rule sorted_sort_key)
  have rem: "set ?f' = set (drop ?j ?s)" using assms by (rule pull_remaining)
  have c1: "length ?vs = min m (length f)" by simp
  have c2: "distinct ?vs" using d by (simp add: distinct_take flip: take_map)
  have c3: "set ?vs \<subseteq> fst ` set f"
    using set_take_subset[of ?j ?s] by auto
  have c4: "set ?f' = {e \<in> set f. fst e \<notin> set ?vs}" by auto
  have c5: "distinct (map fst ?f')" using assms by (rule distinct_map_filter)
  have c6: "\<forall>a\<in>set f. \<forall>b\<in>set ?f'. fst a \<in> set ?vs \<longrightarrow> snd a \<le> snd b"
  proof (intro ballI impI)
    fix a b assume a: "a \<in> set f" and b: "b \<in> set ?f'" and k: "fst a \<in> set ?vs"
    from k obtain a' where a': "a' \<in> set (take ?j ?s)" "fst a' = fst a" by auto
    then have "a' \<in> set f" using set_take_subset[of ?j ?s] by auto
    then have "a' = a"
      using a a'(2) eq_key_imp_eq_value[OF assms, of "fst a" "snd a'" "snd a"]
      by (metis prod.collapse)
    then have "a \<in> set (take ?j ?s)" using a' by simp
    moreover have "b \<in> set (drop ?j ?s)" using b by (simp only: rem)
    ultimately show "snd a \<le> snd b" using sorted_take_drop_le[OF srt] by blast
  qed
  have c7: "\<forall>b\<in>set ?f'. ?ub \<le> snd b"
  proof
    fix b assume "b \<in> set ?f'"
    then have b: "b \<in> set (drop ?j ?s)" by (simp only: rem)
    have "?j < length ?s \<and> snd (?s ! ?j) \<le> snd b"
      using srt b by (rule sorted_drop_head_le)
    then show "?ub \<le> snd b" by simp
  qed
  have c8: "?f' \<noteq> [] \<longrightarrow> ?ub \<in> snd ` set ?f'"
  proof
    assume "?f' \<noteq> []"
    then have "set (drop ?j ?s) \<noteq> {}" using rem by (metis set_empty)
    then have lt: "?j < length f" by (cases "?j < length f") auto
    then have "?s ! ?j \<in> set (drop ?j ?s)"
      by (metis Cons_nth_drop_Suc length_sort list.set_intros(1))
    then have "snd (?s ! ?j) \<in> snd ` set ?f'" unfolding rem by (rule imageI)
    then show "?ub \<in> snd ` set ?f'" using lt by (simp only: if_True)
  qed
  have c9: "?f' = [] \<longrightarrow> ?ub = Infinity"
  proof
    assume "?f' = []"
    then have "set (drop ?j ?s) = {}" using rem by (metis set_empty)
    then have "\<not> ?j < length f" by simp
    then show "?ub = Infinity" by simp
  qed
  have e: "pull m [] = (([], Infinity), [])" by (simp add: pull_def)
  show ?thesis
    unfolding p using c1 c2 c3 c4 c5 c6 c7 c8 c9 e by (simp only: prod.case)
qed

theorem pull_contract_witness:
  "distinct (map fst [(1::int, Fin 5), (2, Fin 3), (3, Fin 7)]) \<and>
   pull 2 [(1, Fin 5), (2, Fin 3), (3, Fin 7)] = (([2, 1], Fin 7), [(3, Fin 7)]) \<and>
   snd (1::int, Fin 5) \<le> snd (3::int, Fin 7)"
proof -
  have d: "distinct (map fst [(1::int, Fin 5), (2, Fin 3), (3, Fin 7)])" by simp
  have p: "pull 2 [(1, Fin 5), (2, Fin 3), (3, Fin 7)] = (([2, 1], Fin 7), [(3, Fin 7)])"
    by (simp add: pull_def)
  have "\<forall>a\<in>set [(1::int, Fin 5), (2, Fin 3), (3, Fin 7)]. \<forall>b\<in>set [(3::int, Fin 7)].
      fst a \<in> set [2, 1] \<longrightarrow> snd a \<le> snd b"
    using pull_contract[OF d, of 2] unfolding p prod.case by (elim conjE)
  then have "snd (1::int, Fin 5) \<le> snd (3::int, Fin 7)" by simp
  then show ?thesis using d p by (intro conjI)
qed

section \<open>MinHeap: the heap order and the position map\<close>

lemma heap_swap: "heap (swap i j h) = (heap h)[i := heap h ! j, j := heap h ! i]"
  by (simp add: swap_def Let_def)

lemma nth_heap_swap:
  "i < length (heap h) \<Longrightarrow> j < length (heap h) \<Longrightarrow> m < length (heap h) \<Longrightarrow>
   heap (swap i j h) ! m = (if m = j then heap h ! i else if m = i then heap h ! j else heap h ! m)"
  by (auto simp: heap_swap nth_list_update)

lemma length_heap_swap [simp]: "length (heap (swap i j h)) = length (heap h)"
  by (simp add: heap_swap)

lemma length_heap_bubbleUp [simp]: "length (heap (bubbleUp idx h)) = length (heap h)"
  by (induction idx h rule: bubbleUp.induct) (subst bubbleUp.simps, simp add: Let_def)

lemma length_heap_bubbleDown [simp]: "length (heap (bubbleDown idx h)) = length (heap h)"
proof (induction idx h rule: bubbleDown.induct)
  case (1 idx h)
  show ?case
    by (subst bubbleDown.simps) (use 1 in \<open>auto simp: Let_def\<close>)
qed

lemma mset_heap_swap: "i < length (heap h) \<Longrightarrow> j < length (heap h) \<Longrightarrow> mset (heap (swap i j h)) = mset (heap h)"
  by (simp add: heap_swap mset_swap)

lemma mset_heap_bubbleUp: "idx < length (heap h) \<Longrightarrow> mset (heap (bubbleUp idx h)) = mset (heap h)"
proof (induction idx h rule: bubbleUp.induct)
  case (1 idx h)
  show ?case
    by (subst bubbleUp.simps) (use 1 in \<open>auto simp: Let_def mset_heap_swap\<close>)
qed

lemma mset_heap_bubbleDown: "idx < length (heap h) \<Longrightarrow> mset (heap (bubbleDown idx h)) = mset (heap h)"
proof (induction idx h rule: bubbleDown.induct)
  case (1 idx h)
  show ?case
    by (subst bubbleDown.simps) (use 1 in \<open>auto simp: Let_def mset_heap_swap\<close>)
qed

lemma heap_ordered_root_le:
  assumes "heap_ordered xs" "i < length xs"
  shows "snd (xs ! 0) \<le> snd (xs ! i)"
  using assms(2)
proof (induction i rule: less_induct)
  case (less i)
  show ?case
  proof (cases "i = 0")
    case True then show ?thesis by simp
  next
    case False
    then have p: "(i - 1) div 2 < i" by simp
    then have "snd (xs ! 0) \<le> snd (xs ! ((i - 1) div 2))" using less by simp
    moreover have "snd (xs ! ((i - 1) div 2)) \<le> snd (xs ! i)"
      using assms(1) less.prems False by (simp add: heap_ordered_def)
    ultimately show ?thesis by simp
  qed
qed

lemma bubbleUp_ordered:
  assumes "idx < length (heap h)"
    and "\<forall>i < length (heap h). 0 < i \<longrightarrow> i \<noteq> idx \<longrightarrow> snd (heap h ! ((i - 1) div 2)) \<le> snd (heap h ! i)"
    and "\<forall>c < length (heap h). 0 < idx \<longrightarrow> 0 < c \<longrightarrow> (c - 1) div 2 = idx
           \<longrightarrow> snd (heap h ! ((idx - 1) div 2)) \<le> snd (heap h ! c)"
  shows "heap_ordered (heap (bubbleUp idx h))"
  using assms
proof (induction idx h rule: bubbleUp.induct)
  case (1 idx h)
  let ?p = "(idx - Suc 0) div 2"
  let ?xs = "heap h"
  show ?case
  proof (cases "0 < idx \<and> \<not> snd (?xs ! ?p) \<le> snd (?xs ! idx)")
    case False
    then have "bubbleUp idx h = h" by (subst bubbleUp.simps) (auto simp: Let_def)
    moreover have "heap_ordered ?xs"
      unfolding heap_ordered_def
    proof (intro allI impI)
      fix i assume i: "i < length ?xs" "0 < i"
      show "snd (?xs ! ((i - 1) div 2)) \<le> snd (?xs ! i)"
      proof (cases "i = idx")
        case True then show ?thesis using False i by simp
      next
        case False then show ?thesis using "1.prems"(2) i by simp
      qed
    qed
    ultimately show ?thesis by simp
  next
    case True
    then have pos: "0 < idx" and gt: "snd (?xs ! idx) < snd (?xs ! ?p)" by auto
    have plt: "?p < idx" using pos by simp
    have eq: "bubbleUp idx h = bubbleUp ?p (swap idx ?p h)"
      by (subst bubbleUp.simps) (use True in \<open>auto simp: Let_def\<close>)
    let ?h' = "swap idx ?p h"
    let ?ys = "heap ?h'"
    have len: "length ?ys = length ?xs" by simp
    have nth: "\<And>i. i < length ?xs \<Longrightarrow> ?ys ! i = (if i = ?p then ?xs ! idx else if i = idx then ?xs ! ?p else ?xs ! i)"
      using "1.prems"(1) plt by (simp add: nth_heap_swap)
    have a: "\<forall>i < length ?ys. 0 < i \<longrightarrow> i \<noteq> ?p \<longrightarrow> snd (?ys ! ((i - 1) div 2)) \<le> snd (?ys ! i)"
    proof (intro allI impI)
      fix i assume i: "i < length ?ys" "0 < i" "i \<noteq> ?p"
      then have il: "i < length ?xs" and pil: "(i - 1) div 2 < length ?xs" by auto
      show "snd (?ys ! ((i - 1) div 2)) \<le> snd (?ys ! i)"
      proof (cases "i = idx")
        case True
        then show ?thesis using gt il pil plt by (simp add: nth)
      next
        case ni: False
        have d: "snd (?xs ! ((i - 1) div 2)) \<le> snd (?xs ! i)"
          using "1.prems"(2) il i(2) ni by simp
        consider "(i - 1) div 2 = idx" | "(i - 1) div 2 = ?p" | "(i - 1) div 2 \<noteq> idx \<and> (i - 1) div 2 \<noteq> ?p"
          by blast
        then show ?thesis
        proof cases
          case 1
          then have "snd (?xs ! ?p) \<le> snd (?xs ! i)" using "1.prems"(3) il i(2) pos by simp
          then show ?thesis using 1 il pil ni i(3) plt by (simp add: nth)
        next
          case 2
          then have "snd (?xs ! ?p) \<le> snd (?xs ! i)" using d by simp
          then show ?thesis using 2 il pil ni i(3) gt by (simp add: nth)
        next
          case 3
          then show ?thesis using d il pil ni i(3) by (simp add: nth)
        qed
      qed
    qed
    have b: "\<forall>c < length ?ys. 0 < ?p \<longrightarrow> 0 < c \<longrightarrow> (c - 1) div 2 = ?p
           \<longrightarrow> snd (?ys ! ((?p - 1) div 2)) \<le> snd (?ys ! c)"
    proof (intro allI impI)
      fix c assume c: "c < length ?ys" "0 < ?p" "0 < c" "(c - 1) div 2 = ?p"
      then have cl: "c < length ?xs" by simp
      have ppl: "(?p - 1) div 2 < ?p" using c(2) by simp
      then have ppl': "(?p - 1) div 2 < length ?xs" using plt "1.prems"(1) by simp
      have pp: "snd (?xs ! ((?p - 1) div 2)) \<le> snd (?xs ! ?p)"
        using "1.prems"(2) c(2) plt "1.prems"(1) by simp
      have ysp: "?ys ! ((?p - 1) div 2) = ?xs ! ((?p - 1) div 2)"
        using ppl ppl' plt by (simp add: nth)
      have cneq: "c \<noteq> ?p" using c(3,4) by arith
      show "snd (?ys ! ((?p - 1) div 2)) \<le> snd (?ys ! c)"
      proof (cases "c = idx")
        case True
        then have "?ys ! c = ?xs ! ?p" using cl cneq by (simp add: nth)
        then show ?thesis using pp ysp by simp
      next
        case False
        then have "snd (?xs ! ?p) \<le> snd (?xs ! c)" using "1.prems"(2) cl c(3,4) by auto
        moreover have "?ys ! c = ?xs ! c" using cl cneq False by (simp add: nth)
        ultimately show ?thesis using pp ysp by simp
      qed
    qed
    have "heap_ordered (heap (bubbleUp ?p ?h'))"
      using "1.IH"[OF pos refl] True plt "1.prems"(1) a b by simp
    then show ?thesis using eq by simp
  qed
qed


lemma bubbleDown_step:
  "bubbleDown idx h =
    (if smallestOf (heap h) idx = idx then h
     else bubbleDown (smallestOf (heap h) idx) (swap idx (smallestOf (heap h) idx) h))"
  by (subst bubbleDown.simps) (simp add: smallestOf_def Let_def)

lemma smallestOf_cases:
  "smallestOf xs idx = idx \<or> smallestOf xs idx = 2 * idx + 1 \<or> smallestOf xs idx = 2 * idx + 2"
  by (simp add: smallestOf_def Let_def)

lemma smallestOf_le_idx: "snd (xs ! smallestOf xs idx) \<le> snd (xs ! idx)"
  by (auto simp: smallestOf_def Let_def)

lemma smallestOf_le_left:
  "2 * idx + 1 < length xs \<Longrightarrow> snd (xs ! smallestOf xs idx) \<le> snd (xs ! (2 * idx + 1))"
  by (auto simp: smallestOf_def Let_def)

lemma smallestOf_le_right:
  "2 * idx + 2 < length xs \<Longrightarrow> snd (xs ! smallestOf xs idx) \<le> snd (xs ! (2 * idx + 2))"
  by (auto simp: smallestOf_def Let_def)

lemma smallestOf_neq:
  assumes "smallestOf xs idx \<noteq> idx"
  shows "smallestOf xs idx < length xs" "snd (xs ! smallestOf xs idx) < snd (xs ! idx)"
    "idx < smallestOf xs idx" "(smallestOf xs idx - 1) div 2 = idx"
  using assms by (auto simp: smallestOf_def Let_def split: if_splits)

lemma bubbleDown_induct:
  assumes "\<And>idx h. (smallestOf (heap h) idx \<noteq> idx \<Longrightarrow>
              P (smallestOf (heap h) idx) (swap idx (smallestOf (heap h) idx) h)) \<Longrightarrow> P idx h"
  shows "P idx h"
proof (induction "length (heap h) - idx" arbitrary: idx h rule: less_induct)
  case less
  show ?case
  proof (rule assms)
    assume n: "smallestOf (heap h) idx \<noteq> idx"
    have "length (heap (swap idx (smallestOf (heap h) idx) h)) - smallestOf (heap h) idx
        < length (heap h) - idx"
      using smallestOf_neq(1,3)[OF n] by simp
    then show "P (smallestOf (heap h) idx) (swap idx (smallestOf (heap h) idx) h)"
      by (rule less)
  qed
qed

lemma childD: "0 < (i::nat) \<Longrightarrow> (i - 1) div 2 = idx \<Longrightarrow> i = 2 * idx + 1 \<or> i = 2 * idx + 2"
  by arith

lemma bubbleDown_ordered:
  assumes "\<forall>i < length (heap h). 0 < i \<longrightarrow> (i - 1) div 2 \<noteq> idx \<longrightarrow> snd (heap h ! ((i - 1) div 2)) \<le> snd (heap h ! i)"
    and "\<forall>c < length (heap h). 0 < idx \<longrightarrow> 0 < c \<longrightarrow> (c - 1) div 2 = idx
           \<longrightarrow> snd (heap h ! ((idx - 1) div 2)) \<le> snd (heap h ! c)"
  shows "heap_ordered (heap (bubbleDown idx h))"
  using assms
proof (induction idx h rule: bubbleDown_induct)
  case (1 idx h)
  let ?xs = "heap h"
  let ?s = "smallestOf ?xs idx"
  show ?case
  proof (cases "?s = idx")
    case True
    then have eq: "bubbleDown idx h = h"
      by (subst bubbleDown_step) simp
    have "heap_ordered ?xs"
      unfolding heap_ordered_def
    proof (intro allI impI)
      fix i assume i: "i < length ?xs" "0 < i"
      show "snd (?xs ! ((i - 1) div 2)) \<le> snd (?xs ! i)"
      proof (cases "(i - 1) div 2 = idx")
        case False then show ?thesis using "1.prems"(1) i by simp
      next
        case c: True
        then have "i = 2 * idx + 1 \<or> i = 2 * idx + 2" using childD[OF i(2)] by simp
        then have "snd (?xs ! ?s) \<le> snd (?xs ! i)"
          using smallestOf_le_left[of idx ?xs] smallestOf_le_right[of idx ?xs] i(1) by auto
        then show ?thesis using True c by simp
      qed
    qed
    then show ?thesis using eq by simp
  next
    case False
    then have eq: "bubbleDown idx h = bubbleDown ?s (swap idx ?s h)"
      by (subst bubbleDown_step) simp
    note sn = smallestOf_neq[OF False]
    have sl: "?s < length ?xs" by (rule sn(1))
    have il: "idx < length ?xs" using sl sn(3) by simp
    let ?h' = "swap idx ?s h"
    let ?ys = "heap ?h'"
    have nth: "\<And>i. i < length ?xs \<Longrightarrow> ?ys ! i = (if i = ?s then ?xs ! idx else if i = idx then ?xs ! ?s else ?xs ! i)"
      using sl il by (simp add: nth_heap_swap)
    have a: "\<forall>i < length ?ys. 0 < i \<longrightarrow> (i - 1) div 2 \<noteq> ?s \<longrightarrow> snd (?ys ! ((i - 1) div 2)) \<le> snd (?ys ! i)"
    proof (intro allI impI)
      fix i assume i: "i < length ?ys" "0 < i" "(i - 1) div 2 \<noteq> ?s"
      then have ilen: "i < length ?xs" and pil: "(i - 1) div 2 < length ?xs" by auto
      have yp: "?ys ! ((i - 1) div 2) = (if (i - 1) div 2 = idx then ?xs ! ?s else ?xs ! ((i - 1) div 2))"
        using i(3) nth[OF pil] by simp
      show "snd (?ys ! ((i - 1) div 2)) \<le> snd (?ys ! i)"
      proof (cases "(i - 1) div 2 = idx")
        case True
        then have lr: "i = 2 * idx + 1 \<or> i = 2 * idx + 2" using childD[OF i(2)] by simp
        then have ni: "i \<noteq> idx" by arith
        have "snd (?xs ! ?s) \<le> snd (?ys ! i)"
        proof (cases "i = ?s")
          case True
          then have "?ys ! i = ?xs ! idx" using nth[OF ilen] by simp
          then show ?thesis using sn(2) by simp
        next
          case False
          then have "?ys ! i = ?xs ! i" using nth[OF ilen] ni by simp
          moreover have "snd (?xs ! ?s) \<le> snd (?xs ! i)"
            using lr smallestOf_le_left[of idx ?xs] smallestOf_le_right[of idx ?xs] ilen by auto
          ultimately show ?thesis by simp
        qed
        then show ?thesis using yp True by simp
      next
        case False
        then have ns: "i \<noteq> ?s" using sn(4) by auto
        have d: "snd (?xs ! ((i - 1) div 2)) \<le> snd (?xs ! i)"
          using "1.prems"(1) ilen i(2) False by simp
        show ?thesis
        proof (cases "i = idx")
          case True
          then have "?ys ! i = ?xs ! ?s" using nth[OF ilen] ns by simp
          moreover have "snd (?xs ! ((idx - 1) div 2)) \<le> snd (?xs ! ?s)"
            using "1.prems"(2) sl sn(3,4) True i(2) by simp
          ultimately show ?thesis using yp False True by simp
        next
          case ni: False
          then have "?ys ! i = ?xs ! i" using nth[OF ilen] ns by simp
          then show ?thesis using yp False d by simp
        qed
      qed
    qed
    have b: "\<forall>c < length ?ys. 0 < ?s \<longrightarrow> 0 < c \<longrightarrow> (c - 1) div 2 = ?s
           \<longrightarrow> snd (?ys ! ((?s - 1) div 2)) \<le> snd (?ys ! c)"
    proof (intro allI impI)
      fix c assume c: "c < length ?ys" "0 < ?s" "0 < c" "(c - 1) div 2 = ?s"
      then have cl: "c < length ?xs" by simp
      have cs: "c \<noteq> ?s" using c(3,4) by arith
      have ci: "c \<noteq> idx" using c(3,4) sn(3) by arith
      have "?ys ! c = ?xs ! c" using nth[OF cl] cs ci by simp
      moreover have "?ys ! idx = ?xs ! ?s" using nth[OF il] sn(3) by simp
      moreover have "snd (?xs ! ?s) \<le> snd (?xs ! c)"
        using "1.prems"(1) cl c(3,4) sn(3) by auto
      ultimately show "snd (?ys ! ((?s - 1) div 2)) \<le> snd (?ys ! c)" using sn(4) by simp
    qed
    have "heap_ordered (heap (bubbleDown ?s ?h'))"
      by (rule "1.IH"[OF False a b])
    then show ?thesis using eq by simp
  qed
qed


lemma map_of_positions_swap:
  "map_of (positions (swap i j h)) =
    ((map_of (positions h))(fst (heap (swap i j h) ! i) \<mapsto> i))(fst (heap (swap i j h) ! j) \<mapsto> j)"
  by (simp add: swap_def Let_def update_conv')

lemma positions_valid_swap:
  assumes "positions_valid h" "i < length (heap h)" "j < length (heap h)"
  shows "positions_valid (swap i j h)"
  unfolding positions_valid_def
proof (intro allI impI)
  fix v m assume m: "map_of (positions (swap i j h)) v = Some m"
  let ?ys = "heap (swap i j h)"
  show "m < length ?ys \<and> fst (?ys ! m) = v"
  proof (cases "v = fst (?ys ! j)")
    case True
    then show ?thesis using m assms by (simp add: map_of_positions_swap)
  next
    case nj: False
    show ?thesis
    proof (cases "v = fst (?ys ! i)")
      case True
      then show ?thesis using m nj assms by (simp add: map_of_positions_swap)
    next
      case ni: False
      then have old: "map_of (positions h) v = Some m"
        using m nj by (simp add: map_of_positions_swap)
      then have ml: "m < length (heap h)" and mv: "fst (heap h ! m) = v"
        using assms(1) by (auto simp: positions_valid_def)
      have yj: "?ys ! j = heap h ! i" using assms by (simp add: nth_heap_swap)
      have yi: "?ys ! i = (if i = j then heap h ! i else heap h ! j)"
        using assms by (simp add: nth_heap_swap)
      have "m \<noteq> i" using nj mv yj by auto
      moreover have "m \<noteq> j" using ni nj mv yi yj by (auto split: if_splits)
      ultimately have "?ys ! m = heap h ! m" using ml assms by (simp add: nth_heap_swap)
      then show ?thesis using ml mv by simp
    qed
  qed
qed

lemma positions_complete_swap:
  assumes "positions_complete h" "i < length (heap h)" "j < length (heap h)"
  shows "positions_complete (swap i j h)"
  unfolding positions_complete_def
proof (intro allI impI)
  fix m assume m: "m < length (heap (swap i j h))"
  let ?ys = "heap (swap i j h)"
  have ml: "m < length (heap h)" using m by simp
  have inj: "\<And>a b. a < length (heap h) \<Longrightarrow> b < length (heap h) \<Longrightarrow> fst (heap h ! a) = fst (heap h ! b) \<Longrightarrow> a = b"
    using assms(1) by (metis option.inject positions_complete_def)
  show "map_of (positions (swap i j h)) (fst (?ys ! m)) = Some m"
  proof (cases "m = j")
    case True then show ?thesis by (simp add: map_of_positions_swap)
  next
    case nj: False
    show ?thesis
    proof (cases "m = i")
      case True
      have "fst (?ys ! i) = fst (?ys ! j) \<Longrightarrow> i = j"
        using assms inj[of j i] by (simp add: nth_heap_swap split: if_splits)
      then show ?thesis using True nj by (auto simp: map_of_positions_swap)
    next
      case ni: False
      have e: "?ys ! m = heap h ! m" using ml assms ni nj by (simp add: nth_heap_swap)
      have "fst (heap h ! m) \<noteq> fst (?ys ! i)"
        using inj[of m j] inj[of m i] ml assms ni nj by (auto simp: nth_heap_swap split: if_splits)
      moreover have "fst (heap h ! m) \<noteq> fst (?ys ! j)"
        using inj[of m j] inj[of m i] ml assms ni nj by (auto simp: nth_heap_swap split: if_splits)
      moreover have "map_of (positions h) (fst (heap h ! m)) = Some m"
        using assms(1) ml by (simp add: positions_complete_def)
      ultimately show ?thesis using e by (simp add: map_of_positions_swap)
    qed
  qed
qed

lemma bubbleUp_preserves:
  assumes "\<And>i j h. P h \<Longrightarrow> i < length (heap h) \<Longrightarrow> j < length (heap h) \<Longrightarrow> P (swap i j h)"
  shows "P h \<Longrightarrow> idx < length (heap h) \<Longrightarrow> P (bubbleUp idx h)"
proof (induction idx h rule: bubbleUp.induct)
  case (1 idx h)
  show ?case
  proof (cases "0 < idx \<and> \<not> snd (heap h ! ((idx - 1) div 2)) \<le> snd (heap h ! idx)")
    case False
    then have "bubbleUp idx h = h" by (subst bubbleUp.simps) (auto simp: Let_def)
    then show ?thesis using "1.prems" by simp
  next
    case True
    then have eq: "bubbleUp idx h = bubbleUp ((idx - 1) div 2) (swap idx ((idx - 1) div 2) h)"
      by (subst bubbleUp.simps) (auto simp: Let_def)
    have pl: "(idx - 1) div 2 < length (heap h)" using "1.prems"(2) by simp
    have "P (swap idx ((idx - 1) div 2) h)" using assms "1.prems" pl by blast
    then have "P (bubbleUp ((idx - 1) div 2) (swap idx ((idx - 1) div 2) h))"
      using "1.IH"[OF _ refl] True pl by simp
    then show ?thesis using eq by simp
  qed
qed

lemma bubbleDown_preserves:
  assumes "\<And>i j h. P h \<Longrightarrow> i < length (heap h) \<Longrightarrow> j < length (heap h) \<Longrightarrow> P (swap i j h)"
  shows "P h \<Longrightarrow> idx < length (heap h) \<Longrightarrow> P (bubbleDown idx h)"
proof (induction idx h rule: bubbleDown_induct)
  case (1 idx h)
  let ?s = "smallestOf (heap h) idx"
  show ?case
  proof (cases "?s = idx")
    case True
    then have "bubbleDown idx h = h" by (subst bubbleDown_step) simp
    then show ?thesis using "1.prems" by simp
  next
    case False
    then have eq: "bubbleDown idx h = bubbleDown ?s (swap idx ?s h)"
      by (subst bubbleDown_step) simp
    have sl: "?s < length (heap h)" using smallestOf_neq(1)[OF False] .
    have "P (swap idx ?s h)" using assms "1.prems" sl by blast
    then have "P (bubbleDown ?s (swap idx ?s h))"
      using "1.IH"[OF False] sl by simp
    then show ?thesis using eq by simp
  qed
qed

lemmas positions_valid_bubbleUp = bubbleUp_preserves[of positions_valid, OF positions_valid_swap]
lemmas positions_valid_bubbleDown = bubbleDown_preserves[of positions_valid, OF positions_valid_swap]
lemmas positions_complete_bubbleUp = bubbleUp_preserves[of positions_complete, OF positions_complete_swap]
lemmas positions_complete_bubbleDown = bubbleDown_preserves[of positions_complete, OF positions_complete_swap]


lemma heap_inv_new: "heap_inv newMinHeap"
  unfolding heap_inv_def heap_ordered_def positions_valid_def newMinHeap_def by simp

lemma heap_wf_new: "heap_wf newMinHeap"
  unfolding heap_wf_def using heap_inv_new by (simp add: positions_complete_def newMinHeap_def)

lemma positions_complete_distinct:
  assumes "positions_complete h"
  shows "distinct (map fst (heap h))"
  unfolding distinct_conv_nth
proof (intro allI impI)
  fix i j assume "i < length (map fst (heap h))" "j < length (map fst (heap h))" "i \<noteq> j"
  then show "map fst (heap h) ! i \<noteq> map fst (heap h) ! j"
    using assms by (metis length_map nth_map option.inject positions_complete_def)
qed

subsection \<open>insert\<close>

lemma insert_pre_ordered:
  assumes "heap_ordered xs"
  shows "\<forall>i < length (xs @ [e]). 0 < i \<longrightarrow> i \<noteq> length xs \<longrightarrow>
           snd ((xs @ [e]) ! ((i - 1) div 2)) \<le> snd ((xs @ [e]) ! i)"
proof (intro allI impI)
  fix i assume i: "i < length (xs @ [e])" "0 < i" "i \<noteq> length xs"
  then have il: "i < length xs" by simp
  then have "(i - 1) div 2 < length xs" by simp
  then show "snd ((xs @ [e]) ! ((i - 1) div 2)) \<le> snd ((xs @ [e]) ! i)"
    using assms il i(2) by (simp add: nth_append heap_ordered_def)
qed

lemma heap_ordered_insert:
  assumes "heap_ordered (heap h)"
  shows "heap_ordered (heap (MinHeap_insert v d h))"
proof -
  let ?h0 = "\<lparr>heap = heap h @ [(v, d)], positions = AList.update v (length (heap h)) (positions h)\<rparr>"
  have e: "MinHeap_insert v d h = bubbleUp (length (heap h)) ?h0"
    by (simp add: MinHeap_insert_def Let_def)
  have "heap_ordered (heap (bubbleUp (length (heap h)) ?h0))"
  proof (rule bubbleUp_ordered)
    show "length (heap h) < length (heap ?h0)" by simp
    show "\<forall>i<length (heap ?h0). 0 < i \<longrightarrow> i \<noteq> length (heap h) \<longrightarrow>
         snd (heap ?h0 ! ((i - 1) div 2)) \<le> snd (heap ?h0 ! i)"
      using insert_pre_ordered[OF assms, of "(v, d)"] by simp
    show "\<forall>c<length (heap ?h0). 0 < length (heap h) \<longrightarrow> 0 < c \<longrightarrow> (c - 1) div 2 = length (heap h) \<longrightarrow>
         snd (heap ?h0 ! ((length (heap h) - 1) div 2)) \<le> snd (heap ?h0 ! c)"
      by (simp, arith)
  qed
  then show ?thesis using e by simp
qed

lemma positions_valid_insert:
  assumes "positions_valid h"
  shows "positions_valid (MinHeap_insert v d h)"
proof -
  let ?h0 = "\<lparr>heap = heap h @ [(v, d)], positions = AList.update v (length (heap h)) (positions h)\<rparr>"
  have e: "MinHeap_insert v d h = bubbleUp (length (heap h)) ?h0"
    by (simp add: MinHeap_insert_def Let_def)
  have "positions_valid ?h0"
    unfolding positions_valid_def
  proof (intro allI impI)
    fix u i assume a: "map_of (positions ?h0) u = Some i"
    show "i < length (heap ?h0) \<and> fst (heap ?h0 ! i) = u"
    proof (cases "u = v")
      case True then show ?thesis using a by (auto simp: update_conv')
    next
      case False
      then have "map_of (positions h) u = Some i" using a by (simp add: update_conv')
      then have "i < length (heap h) \<and> fst (heap h ! i) = u"
        using assms by (simp add: positions_valid_def)
      then show ?thesis by (simp add: nth_append)
    qed
  qed
  then have "positions_valid (bubbleUp (length (heap h)) ?h0)"
    using positions_valid_bubbleUp[of ?h0 "length (heap h)"] by simp
  then show ?thesis using e by simp
qed

lemma positions_complete_insert:
  assumes "positions_complete h" "v \<notin> fst ` set (heap h)"
  shows "positions_complete (MinHeap_insert v d h)"
proof -
  let ?h0 = "\<lparr>heap = heap h @ [(v, d)], positions = AList.update v (length (heap h)) (positions h)\<rparr>"
  have e: "MinHeap_insert v d h = bubbleUp (length (heap h)) ?h0"
    by (simp add: MinHeap_insert_def Let_def)
  have "positions_complete ?h0"
    unfolding positions_complete_def
  proof (intro allI impI)
    fix i assume "i < length (heap ?h0)"
    then consider "i < length (heap h)" | "i = length (heap h)" by fastforce
    then show "map_of (positions ?h0) (fst (heap ?h0 ! i)) = Some i"
    proof cases
      case 1
      then have "fst (heap h ! i) \<noteq> v" using assms(2) by (metis image_eqI nth_mem)
      then show ?thesis using 1 assms(1) by (simp add: update_conv' nth_append positions_complete_def)
    next
      case 2
      then show ?thesis by (simp add: update_conv')
    qed
  qed
  then have "positions_complete (bubbleUp (length (heap h)) ?h0)"
    using positions_complete_bubbleUp[of ?h0 "length (heap h)"] by simp
  then show ?thesis using e by simp
qed

lemma mset_heap_insert: "mset (heap (MinHeap_insert v d h)) = mset (heap h) + {#(v, d)#}"
  by (simp add: MinHeap_insert_def Let_def mset_heap_bubbleUp)

lemma heap_inv_insert: "heap_inv h \<Longrightarrow> heap_inv (MinHeap_insert v d h)"
  by (simp add: heap_inv_def heap_ordered_insert positions_valid_insert)

lemma heap_wf_insert: "heap_wf h \<Longrightarrow> v \<notin> fst ` set (heap h) \<Longrightarrow> heap_wf (MinHeap_insert v d h)"
  by (simp add: heap_wf_def heap_inv_insert positions_complete_insert)

subsection \<open>decreaseKey\<close>

lemma decreaseKey_absent: "map_of (positions h) v = None \<Longrightarrow> decreaseKey v d h = h"
  by (simp add: decreaseKey_def)

lemma decreaseKey_present:
  "map_of (positions h) v = Some idx \<Longrightarrow>
   decreaseKey v d h = bubbleUp idx (h\<lparr>heap := (heap h)[idx := (fst (heap h ! idx), d)]\<rparr>)"
  by (simp add: decreaseKey_def)

lemma heap_ordered_decreaseKey:
  assumes "heap_inv h" "\<And>i. map_of (positions h) v = Some i \<Longrightarrow> d \<le> snd (heap h ! i)"
  shows "heap_ordered (heap (decreaseKey v d h))"
proof (cases "map_of (positions h) v")
  case None
  then show ?thesis using assms(1) by (simp add: decreaseKey_absent heap_inv_def)
next
  case (Some idx)
  let ?xs = "heap h"
  let ?h0 = "h\<lparr>heap := ?xs[idx := (fst (?xs ! idx), d)]\<rparr>"
  have il: "idx < length ?xs" using Some assms(1) by (simp add: heap_inv_def positions_valid_def)
  have le: "d \<le> snd (?xs ! idx)" using assms(2) Some by simp
  have ord: "\<And>i. i < length ?xs \<Longrightarrow> 0 < i \<Longrightarrow> snd (?xs ! ((i - 1) div 2)) \<le> snd (?xs ! i)"
    using assms(1) by (simp add: heap_inv_def heap_ordered_def)
  have "heap_ordered (heap (bubbleUp idx ?h0))"
  proof (rule bubbleUp_ordered)
    show "idx < length (heap ?h0)" using il by simp
    show "\<forall>i<length (heap ?h0). 0 < i \<longrightarrow> i \<noteq> idx \<longrightarrow> snd (heap ?h0 ! ((i - 1) div 2)) \<le> snd (heap ?h0 ! i)"
    proof (intro allI impI)
      fix i assume i: "i < length (heap ?h0)" "0 < i" "i \<noteq> idx"
      then have "snd (?xs ! ((i - 1) div 2)) \<le> snd (?xs ! i)" using ord by simp
      then show "snd (heap ?h0 ! ((i - 1) div 2)) \<le> snd (heap ?h0 ! i)"
        using i le il by (auto simp: nth_list_update)
    qed
    show "\<forall>c<length (heap ?h0). 0 < idx \<longrightarrow> 0 < c \<longrightarrow> (c - 1) div 2 = idx \<longrightarrow>
            snd (heap ?h0 ! ((idx - 1) div 2)) \<le> snd (heap ?h0 ! c)"
    proof (intro allI impI)
      fix c assume c: "c < length (heap ?h0)" "0 < idx" "0 < c" "(c - 1) div 2 = idx"
      have "snd (?xs ! ((idx - 1) div 2)) \<le> snd (?xs ! idx)" using ord il c(2) by simp
      moreover have "snd (?xs ! idx) \<le> snd (?xs ! c)" using ord[of c] c by simp
      moreover have "c \<noteq> idx" using c(3,4) by arith
      moreover have "(idx - 1) div 2 \<noteq> idx" using c(2) by arith
      ultimately show "snd (heap ?h0 ! ((idx - 1) div 2)) \<le> snd (heap ?h0 ! c)"
        using c(1) by (simp add: nth_list_update)
    qed
  qed
  then show ?thesis using Some by (simp add: decreaseKey_present)
qed

lemma positions_valid_decreaseKey:
  assumes "positions_valid h"
  shows "positions_valid (decreaseKey v d h)"
proof (cases "map_of (positions h) v")
  case None
  then show ?thesis using assms by (simp add: decreaseKey_absent)
next
  case (Some idx)
  let ?h0 = "h\<lparr>heap := (heap h)[idx := (fst (heap h ! idx), d)]\<rparr>"
  have il: "idx < length (heap h)" using Some assms by (simp add: positions_valid_def)
  have "positions_valid ?h0"
    unfolding positions_valid_def
  proof (intro allI impI)
    fix u i assume "map_of (positions ?h0) u = Some i"
    then have "i < length (heap h) \<and> fst (heap h ! i) = u"
      using assms by (simp add: positions_valid_def)
    then show "i < length (heap ?h0) \<and> fst (heap ?h0 ! i) = u"
      using il by (cases "i = idx") (auto simp: nth_list_update)
  qed
  then have "positions_valid (bubbleUp idx ?h0)"
    using positions_valid_bubbleUp[of ?h0 idx] il by simp
  then show ?thesis using Some by (simp add: decreaseKey_present)
qed

lemma positions_complete_decreaseKey:
  assumes "positions_valid h" "positions_complete h"
  shows "positions_complete (decreaseKey v d h)"
proof (cases "map_of (positions h) v")
  case None
  then show ?thesis using assms by (simp add: decreaseKey_absent)
next
  case (Some idx)
  let ?h0 = "h\<lparr>heap := (heap h)[idx := (fst (heap h ! idx), d)]\<rparr>"
  have il: "idx < length (heap h)" using Some assms by (simp add: positions_valid_def)
  have "positions_complete ?h0"
    unfolding positions_complete_def
  proof (intro allI impI)
    fix i assume "i < length (heap ?h0)"
    then have i: "i < length (heap h)" by simp
    then have "map_of (positions h) (fst (heap h ! i)) = Some i"
      using assms(2) by (simp add: positions_complete_def)
    then show "map_of (positions ?h0) (fst (heap ?h0 ! i)) = Some i"
      using i il by (cases "i = idx") (auto simp: nth_list_update)
  qed
  then have "positions_complete (bubbleUp idx ?h0)"
    using positions_complete_bubbleUp[of ?h0 idx] il by simp
  then show ?thesis using Some by (simp add: decreaseKey_present)
qed

lemma mset_heap_decreaseKey:
  assumes "positions_valid h" "map_of (positions h) v = Some idx"
  shows "mset (heap (decreaseKey v d h)) = mset (heap h) - {#heap h ! idx#} + {#(v, d)#}"
proof -
  have il: "idx < length (heap h)" and v: "fst (heap h ! idx) = v"
    using assms by (auto simp: positions_valid_def)
  then show ?thesis
    using assms(2) by (simp add: decreaseKey_present mset_heap_bubbleUp mset_update)
qed

lemma heap_inv_decreaseKey:
  "heap_inv h \<Longrightarrow> (\<And>i. map_of (positions h) v = Some i \<Longrightarrow> d \<le> snd (heap h ! i)) \<Longrightarrow>
   heap_inv (decreaseKey v d h)"
  using heap_ordered_decreaseKey[of h v d] positions_valid_decreaseKey[of h v d]
  by (simp add: heap_inv_def)

lemma heap_wf_decreaseKey:
  "heap_wf h \<Longrightarrow> (\<And>i. map_of (positions h) v = Some i \<Longrightarrow> d \<le> snd (heap h ! i)) \<Longrightarrow>
   heap_wf (decreaseKey v d h)"
  using heap_inv_decreaseKey[of h v d] positions_complete_decreaseKey[of h v d]
  by (simp add: heap_wf_def heap_inv_def)


subsection \<open>extractMin\<close>

lemma nonempty_list_shape:
  assumes "xs \<noteq> []"
  shows "(\<exists>x0. xs = [x0]) \<or> (\<exists>x0 mid l. xs = x0 # mid @ [l])"
proof -
  obtain ys l where xs: "xs = ys @ [l]" using assms by (meson rev_exhaust)
  show ?thesis
  proof (cases ys)
    case Nil then show ?thesis using xs by simp
  next
    case (Cons x0 mid) then show ?thesis using xs by simp
  qed
qed

lemma nth_shape:
  "0 < m \<Longrightarrow> m < Suc (length mid) \<Longrightarrow> (l # mid) ! m = (x0 # mid @ [l]) ! m"
  by (cases m) (auto simp: nth_append)

lemma nth_shape_last: "(x0 # mid @ [l]) ! Suc (length mid) = l"
  by (simp add: nth_append)

lemma extractMin_empty: "heap h = [] \<Longrightarrow> extractMin h = (None, h)"
  by (simp add: extractMin_def)

lemma extractMin_single:
  "heap h = [x0] \<Longrightarrow>
   extractMin h = (Some (fst x0), \<lparr>heap = [], positions = AList.delete (fst x0) (positions h)\<rparr>)"
  by (simp add: extractMin_def Let_def)

lemma extractMin_many:
  "heap h = x0 # mid @ [l] \<Longrightarrow>
   extractMin h = (Some (fst x0),
     bubbleDown 0 \<lparr>heap = l # mid,
                   positions = AList.update (fst l) 0 (AList.delete (fst x0) (positions h))\<rparr>)"
  by (simp add: extractMin_def Let_def butlast_append)

lemma extractMin_nonempty: "heap h \<noteq> [] \<Longrightarrow> fst (extractMin h) = Some (fst (heap h ! 0))"
  using nonempty_list_shape[of "heap h"] by (auto simp: extractMin_single extractMin_many)

lemma length_heap_extractMin:
  "heap h \<noteq> [] \<Longrightarrow> length (heap (snd (extractMin h))) = length (heap h) - 1"
  using nonempty_list_shape[of "heap h"] by (auto simp: extractMin_single extractMin_many)

lemma mset_heap_extractMin:
  "heap h \<noteq> [] \<Longrightarrow> mset (heap (snd (extractMin h))) = mset (heap h) - {#heap h ! 0#}"
  using nonempty_list_shape[of "heap h"]
  by (auto simp: extractMin_single extractMin_many mset_heap_bubbleDown)

lemma heap_ordered_extractMin:
  assumes "heap_ordered (heap h)"
  shows "heap_ordered (heap (snd (extractMin h)))"
proof -
  consider "heap h = []" | x0 where "heap h = [x0]" | x0 mid l where "heap h = x0 # mid @ [l]"
    using nonempty_list_shape[of "heap h"] by blast
  then show ?thesis
  proof cases
    case 1 then show ?thesis using assms by (simp add: extractMin_empty)
  next
    case 2 then show ?thesis by (simp add: extractMin_single heap_ordered_def)
  next
    case 3
    let ?h0 = "\<lparr>heap = l # mid, positions = AList.update (fst l) 0 (AList.delete (fst x0) (positions h))\<rparr>"
    have ord: "\<And>i. i < length (heap h) \<Longrightarrow> 0 < i \<Longrightarrow> snd (heap h ! ((i - 1) div 2)) \<le> snd (heap h ! i)"
      using assms by (simp add: heap_ordered_def)
    have "heap_ordered (heap (bubbleDown 0 ?h0))"
    proof (rule bubbleDown_ordered)
      show "\<forall>i<length (heap ?h0). 0 < i \<longrightarrow> (i - 1) div 2 \<noteq> 0 \<longrightarrow>
              snd (heap ?h0 ! ((i - 1) div 2)) \<le> snd (heap ?h0 ! i)"
      proof (intro allI impI)
        fix i assume i: "i < length (heap ?h0)" "0 < i" "(i - 1) div 2 \<noteq> 0"
        then have il: "i < length (heap h)" using 3 by simp
        have a: "heap ?h0 ! i = heap h ! i" using i 3 nth_shape[of i mid l x0] by simp
        have "(i - 1) div 2 < i" using i(2) by simp
        then have b: "heap ?h0 ! ((i - 1) div 2) = heap h ! ((i - 1) div 2)"
          using i 3 nth_shape[of "(i - 1) div 2" mid l x0] by simp
        show "snd (heap ?h0 ! ((i - 1) div 2)) \<le> snd (heap ?h0 ! i)"
          unfolding a b using ord[OF il i(2)] .
      qed
      show "\<forall>c<length (heap ?h0). 0 < (0::nat) \<longrightarrow> 0 < c \<longrightarrow> (c - 1) div 2 = 0 \<longrightarrow>
              snd (heap ?h0 ! ((0 - 1) div 2)) \<le> snd (heap ?h0 ! c)"
        by simp
    qed
    then show ?thesis using 3 by (simp add: extractMin_many)
  qed
qed

lemma positions_valid_extractMin:
  assumes "positions_valid h"
  shows "positions_valid (snd (extractMin h))"
proof -
  have pv: "\<And>u m. map_of (positions h) u = Some m \<Longrightarrow> m < length (heap h) \<and> fst (heap h ! m) = u"
    using assms by (simp add: positions_valid_def)
  consider "heap h = []" | x0 where "heap h = [x0]" | x0 mid l where "heap h = x0 # mid @ [l]"
    using nonempty_list_shape[of "heap h"] by blast
  then show ?thesis
  proof cases
    case 1 then show ?thesis using assms by (simp add: extractMin_empty)
  next
    case 2
    have "positions_valid \<lparr>heap = [], positions = AList.delete (fst x0) (positions h)\<rparr>"
      unfolding positions_valid_def
    proof (intro allI impI)
      fix u m
      assume "map_of (positions \<lparr>heap = [], positions = AList.delete (fst x0) (positions h)\<rparr>) u = Some m"
      then have "u \<noteq> fst x0" "map_of (positions h) u = Some m"
        by (auto simp: delete_conv' split: if_splits)
      then have False using pv[of u m] 2 by auto
      then show "m < length (heap \<lparr>heap = [], positions = AList.delete (fst x0) (positions h)\<rparr>) \<and>
          fst (heap \<lparr>heap = [], positions = AList.delete (fst x0) (positions h)\<rparr> ! m) = u" ..
    qed
    then show ?thesis using 2 by (simp add: extractMin_single)
  next
    case 3
    let ?h0 = "\<lparr>heap = l # mid, positions = AList.update (fst l) 0 (AList.delete (fst x0) (positions h))\<rparr>"
    have "positions_valid ?h0"
      unfolding positions_valid_def
    proof (intro allI impI)
      fix u m assume a: "map_of (positions ?h0) u = Some m"
      show "m < length (heap ?h0) \<and> fst (heap ?h0 ! m) = u"
      proof (cases "u = fst l")
        case True then show ?thesis using a by (auto simp: update_conv')
      next
        case False
        then have u: "u \<noteq> fst x0" "map_of (positions h) u = Some m"
          using a by (auto simp: update_conv' delete_conv' split: if_splits)
        then have m: "m < length (heap h)" "fst (heap h ! m) = u" using pv by auto
        have "m \<noteq> 0" using m(2) u(1) 3 by (cases m) auto
        moreover have "m \<noteq> Suc (length mid)" using m(2) False 3 nth_shape_last[of x0 mid l] by auto
        ultimately have "0 < m \<and> m < Suc (length mid)" using m(1) 3 by simp
        then show ?thesis using m(2) 3 nth_shape[of m mid l x0] by simp
      qed
    qed
    then have "positions_valid (bubbleDown 0 ?h0)"
      using positions_valid_bubbleDown[of ?h0 0] by simp
    then show ?thesis using 3 by (simp add: extractMin_many)
  qed
qed

lemma positions_complete_extractMin:
  assumes "positions_complete h"
  shows "positions_complete (snd (extractMin h))"
proof -
  have pc: "\<And>i. i < length (heap h) \<Longrightarrow> map_of (positions h) (fst (heap h ! i)) = Some i"
    using assms by (simp add: positions_complete_def)
  have inj: "\<And>a b. a < length (heap h) \<Longrightarrow> b < length (heap h) \<Longrightarrow> fst (heap h ! a) = fst (heap h ! b) \<Longrightarrow> a = b"
    using assms by (metis option.inject positions_complete_def)
  consider "heap h = []" | x0 where "heap h = [x0]" | x0 mid l where "heap h = x0 # mid @ [l]"
    using nonempty_list_shape[of "heap h"] by blast
  then show ?thesis
  proof cases
    case 1 then show ?thesis using assms by (simp add: extractMin_empty)
  next
    case 2 then show ?thesis by (simp add: extractMin_single positions_complete_def)
  next
    case 3
    let ?h0 = "\<lparr>heap = l # mid, positions = AList.update (fst l) 0 (AList.delete (fst x0) (positions h))\<rparr>"
    have "positions_complete ?h0"
      unfolding positions_complete_def
    proof (intro allI impI)
      fix m assume m: "m < length (heap ?h0)"
      show "map_of (positions ?h0) (fst (heap ?h0 ! m)) = Some m"
      proof (cases "m = 0")
        case True then show ?thesis by (simp add: update_conv')
      next
        case False
        then have e: "heap ?h0 ! m = heap h ! m" using m 3 nth_shape[of m mid l x0] by simp
        have ml: "m < length (heap h)" using m 3 by simp
        have "0 < length (heap h)" using ml by linarith
        then have "fst (heap h ! m) \<noteq> fst (heap h ! 0)" using inj[OF ml] False by blast
        then have n0: "fst (heap h ! m) \<noteq> fst x0" using 3 by simp
        have "fst (heap h ! m) \<noteq> fst (heap h ! Suc (length mid))"
          using inj[of m "Suc (length mid)"] ml m 3 by auto
        then have nl: "fst (heap h ! m) \<noteq> fst l" using 3 nth_shape_last[of x0 mid l] by simp
        show ?thesis unfolding e using pc[OF ml] n0 nl by (simp add: update_conv' delete_conv')
      qed
    qed
    then have "positions_complete (bubbleDown 0 ?h0)"
      using positions_complete_bubbleDown[of ?h0 0] by simp
    then show ?thesis using 3 by (simp add: extractMin_many)
  qed
qed

lemma heap_inv_extractMin: "heap_inv h \<Longrightarrow> heap_inv (snd (extractMin h))"
  by (simp add: heap_inv_def heap_ordered_extractMin positions_valid_extractMin)

lemma heap_wf_extractMin: "heap_wf h \<Longrightarrow> heap_wf (snd (extractMin h))"
  by (simp add: heap_wf_def heap_inv_extractMin positions_complete_extractMin)

lemma heap_inv_root_le:
  assumes "heap_inv h" "e \<in> set (heap h)"
  shows "snd (heap h ! 0) \<le> snd e"
proof -
  obtain i where "i < length (heap h)" "heap h ! i = e"
    using assms(2) by (auto simp: in_set_conv_nth)
  then show ?thesis using heap_ordered_root_le[of "heap h" i] assms(1) by (auto simp: heap_inv_def)
qed

section \<open>MinHeap: extraction order and decreaseKey\<close>

lemma heap_inv_apply_ops:
  "heap_inv h \<Longrightarrow> all_lower ops h \<Longrightarrow> heap_inv (apply_ops ops h)"
proof (induction ops arbitrary: h)
  case Nil
  then show ?case by (simp add: apply_ops_def)
next
  case (Cons op ops)
  have "heap_inv (apply_op op h)"
  proof (cases op)
    case (Insert v d)
    then show ?thesis using Cons.prems(1) by (simp add: heap_inv_insert)
  next
    case (DecreaseKey v d)
    then have "\<And>i. map_of (positions h) v = Some i \<Longrightarrow> d \<le> snd (heap h ! i)"
      using Cons.prems(2) by simp
    then show ?thesis using DecreaseKey Cons.prems(1) by (simp add: heap_inv_decreaseKey)
  qed
  then have "heap_inv (apply_ops ops (apply_op op h))"
    using Cons.IH Cons.prems(2) by simp
  then show ?case by (simp add: apply_ops_def)
qed

lemma set_heap_extractMin: "set (heap (snd (extractMin h))) \<subseteq> set (heap h)"
proof (cases "heap h = []")
  case True then show ?thesis by (simp add: extractMin_empty)
next
  case False
  then show ?thesis
    using mset_heap_extractMin[of h] by (metis in_diffD set_mset_mset subsetI)
qed

lemma extractMany_stored:
  "(v, d) \<in> set (extractMany n h) \<Longrightarrow> d \<in> snd ` set (heap h)"
proof (induction n arbitrary: h)
  case 0
  then show ?case by simp
next
  case (Suc n)
  show ?case
  proof (cases "heap h = []")
    case True
    then show ?thesis using Suc.prems by (simp add: extractMin_empty)
  next
    case False
    then obtain u where u: "extractMin h = (Some u, snd (extractMin h))"
      using extractMin_nonempty[of h] by (metis prod.collapse)
    have "(v, d) = (u, snd (heap h ! 0)) \<or> (v, d) \<in> set (extractMany n (snd (extractMin h)))"
      using Suc.prems by (subst (asm) extractMany.simps, subst (asm) u) auto
    then show ?thesis
    proof
      assume "(v, d) = (u, snd (heap h ! 0))"
      then show ?thesis using False by (metis Pair_inject image_eqI length_greater_0_conv nth_mem)
    next
      assume "(v, d) \<in> set (extractMany n (snd (extractMin h)))"
      then have "d \<in> snd ` set (heap (snd (extractMin h)))" by (rule Suc.IH)
      then show ?thesis using set_heap_extractMin[of h] by blast
    qed
  qed
qed

lemma sorted_extractMany:
  "heap_inv h \<Longrightarrow> sorted (map snd (extractMany n h))"
proof (induction n arbitrary: h)
  case 0
  then show ?case by simp
next
  case (Suc n)
  show ?case
  proof (cases "heap h = []")
    case True
    then show ?thesis by (simp add: extractMin_empty)
  next
    case False
    then obtain u where u: "extractMin h = (Some u, snd (extractMin h))"
      using extractMin_nonempty[of h] by (metis prod.collapse)
    let ?h' = "snd (extractMin h)"
    have e: "extractMany (Suc n) h = (u, snd (heap h ! 0)) # extractMany n ?h'"
      by (subst extractMany.simps, subst u) simp
    have "heap_inv ?h'" using Suc.prems by (rule heap_inv_extractMin)
    then have s: "sorted (map snd (extractMany n ?h'))" by (rule Suc.IH)
    have "\<forall>x \<in> set (extractMany n ?h'). snd (heap h ! 0) \<le> snd x"
    proof
      fix x assume "x \<in> set (extractMany n ?h')"
      then have "snd x \<in> snd ` set (heap ?h')" using extractMany_stored[of "fst x" "snd x"] by simp
      then have "snd x \<in> snd ` set (heap h)" using set_heap_extractMin[of h] by blast
      then show "snd (heap h ! 0) \<le> snd x" using heap_inv_root_le[OF Suc.prems] by auto
    qed
    then show ?thesis unfolding e using s by simp
  qed
qed

text \<open>
  Claim C6, amended. After any sequence of \<open>insert\<close> and \<open>decreaseKey\<close> calls on a new
  heap in which every \<open>decreaseKey\<close> lowers (or leaves) the distance of its vertex,
  \<open>extractMin\<close> returns the vertex of a node whose stored distance is at most that of
  every node in the heap; and repeated \<open>extractMin\<close> calls give the vertices in
  non-decreasing order of stored distance. Sequences of inserts alone are a case of it.
\<close>

theorem extractMin_order:
  assumes "all_lower ops newMinHeap"
  shows "(heap (apply_ops ops newMinHeap) \<noteq> [] \<longrightarrow>
           fst (extractMin (apply_ops ops newMinHeap)) = Some (fst (heap (apply_ops ops newMinHeap) ! 0)) \<and>
           (\<forall>e \<in> set (heap (apply_ops ops newMinHeap)).
              snd (heap (apply_ops ops newMinHeap) ! 0) \<le> snd e))
       \<and> sorted (map snd (extractMany n (apply_ops ops newMinHeap)))"
proof -
  have inv: "heap_inv (apply_ops ops newMinHeap)"
    using heap_inv_new assms by (rule heap_inv_apply_ops)
  show ?thesis
    using inv extractMin_nonempty[of "apply_ops ops newMinHeap"] heap_inv_root_le[OF inv]
      sorted_extractMany[OF inv, of n] by blast
qed

theorem extractMin_order_witness:
  "all_lower [Insert 1 (Fin 7), Insert 2 (Fin 5), Insert 3 (Fin 9), DecreaseKey 3 (Fin 4)] newMinHeap \<and>
   extractMany 3 (apply_ops [Insert 1 (Fin 7), Insert 2 (Fin 5), Insert 3 (Fin 9), DecreaseKey 3 (Fin 4)] newMinHeap)
     = [(3, Fin 4), (2, Fin 5), (1, Fin 7)] \<and>
   sorted (map snd (extractMany 3
     (apply_ops [Insert 1 (Fin 7), Insert 2 (Fin 5), Insert 3 (Fin 9), DecreaseKey 3 (Fin 4)] newMinHeap)))"
proof -
  have a: "all_lower [Insert 1 (Fin 7), Insert 2 (Fin 5), Insert 3 (Fin 9), DecreaseKey 3 (Fin 4)] newMinHeap"
    by code_simp
  have b: "extractMany 3 (apply_ops [Insert 1 (Fin 7), Insert 2 (Fin 5), Insert 3 (Fin 9), DecreaseKey 3 (Fin 4)] newMinHeap)
     = [(3, Fin 4), (2, Fin 5), (1, Fin 7)]"
    by code_simp
  show ?thesis using a b extractMin_order[OF a, of 3] by blast
qed

text \<open>
  The claim as stated fails for a \<open>decreaseKey\<close> that raises a distance: the raised node
  stays at the root, and \<open>extractMin\<close> returns vertex 1 (stored distance 10) while
  vertex 2 is stored with 5.
\<close>

theorem extractMin_order_counterexample:
  "fst (extractMin (apply_ops [Insert 1 (Fin 1), Insert 2 (Fin 5), DecreaseKey 1 (Fin 10)] newMinHeap)) = Some 1 \<and>
   heap (apply_ops [Insert 1 (Fin 1), Insert 2 (Fin 5), DecreaseKey 1 (Fin 10)] newMinHeap)
     = [(1, Fin 10), (2, Fin 5)] \<and>
   \<not> Fin 10 \<le> Fin 5"
  by code_simp

text \<open>
  Claim C7, amended. \<open>decreaseKey\<close> never fails: for a vertex that is not in the heap
  it returns the heap unchanged, and for a vertex that is in the heap it stores the new
  distance whatever its size (the nodes are the old ones with that one replaced).
\<close>

theorem decreaseKey_silent:
  "(map_of (positions h) v = None \<longrightarrow> decreaseKey v d h = h) \<and>
   (positions_valid h \<longrightarrow> map_of (positions h) v = Some idx \<longrightarrow>
      mset (heap (decreaseKey v d h)) = mset (heap h) - {#heap h ! idx#} + {#(v, d)#})"
  using decreaseKey_absent[of h v d] mset_heap_decreaseKey[of h v idx d] by blast

theorem decreaseKey_silent_witness:
  "map_of (positions newMinHeap) 7 = None \<and> decreaseKey 7 (Fin 3) newMinHeap = newMinHeap \<and>
   map_of (positions (MinHeap_insert 1 (Fin 1) newMinHeap)) 1 = Some 0 \<and>
   mset (heap (decreaseKey 1 (Fin 10) (MinHeap_insert 1 (Fin 1) newMinHeap))) = {#(1, Fin 10)#}"
proof -
  have a: "map_of (positions newMinHeap) 7 = None" by code_simp
  have b: "positions_valid (MinHeap_insert 1 (Fin 1) newMinHeap)"
    using heap_inv_insert[OF heap_inv_new] by (simp add: heap_inv_def)
  have c: "map_of (positions (MinHeap_insert 1 (Fin 1) newMinHeap)) 1 = Some 0" by code_simp
  have d: "heap (MinHeap_insert 1 (Fin 1) newMinHeap) = [(1, Fin 1)]" by code_simp
  show ?thesis
    using a b c decreaseKey_silent[of newMinHeap 7 "Fin 3" 0]
      decreaseKey_silent[of "MinHeap_insert 1 (Fin 1) newMinHeap" 1 "Fin 10" 0]
    by (simp add: d)
qed

text \<open>
  The claim as stated fails: the call on an absent vertex returns the heap it was given,
  and the call with a larger distance (10 over 1) returns a heap holding the larger one.
\<close>

theorem decreaseKey_silent_counterexample:
  "decreaseKey 7 (Fin 3) newMinHeap = newMinHeap \<and>
   heap (decreaseKey 1 (Fin 10) (MinHeap_insert 1 (Fin 1) newMinHeap)) = [(1, Fin 10)]"
  by code_simp

section \<open>The tables\<close>

lemma getDist_setDist [simp]: "getDist (setDist v d st) x = (if x = v then Some d else getDist st x)"
  by (simp add: getDist_def setDist_def update_conv')

lemma getDist_setPred [simp]: "getDist (setPred v u st) = getDist st"
  by (simp add: getDist_def setPred_def fun_eq_iff)

lemma getDist_setComplete [simp]: "getDist (setComplete v st) = getDist st"
  by (simp add: getDist_def setComplete_def fun_eq_iff)

lemma isComplete_setDist [simp]: "isComplete (setDist v d st) = isComplete st"
  by (simp add: isComplete_def setDist_def fun_eq_iff)

lemma isComplete_setPred [simp]: "isComplete (setPred v u st) = isComplete st"
  by (simp add: isComplete_def setPred_def fun_eq_iff)

lemma isComplete_setComplete [simp]: "isComplete (setComplete v st) x = (x = v \<or> isComplete st x)"
  by (simp add: isComplete_def setComplete_def update_conv')

lemma predArr_setDist [simp]: "predArr (setDist v d st) = predArr st"
  by (simp add: setDist_def)

lemma predArr_setComplete [simp]: "predArr (setComplete v st) = predArr st"
  by (simp add: setComplete_def)

lemma map_of_predArr_setPred [simp]:
  "map_of (predArr (setPred v u st)) = (map_of (predArr st))(v \<mapsto> u)"
  by (simp add: setPred_def update_conv')

lemma dist_decreases_refl [simp]: "dist_decreases st st"
  by (simp add: dist_decreases_def)

lemma dist_decreases_trans:
  assumes "dist_decreases a b" "dist_decreases b c"
  shows "dist_decreases a c"
  unfolding dist_decreases_def
proof
  fix v
  from assms(1) have ab: "getDist b v = getDist a v \<or>
      (\<exists>d d'. getDist a v = Some d \<and> getDist b v = Some d' \<and> d' < d)"
    by (simp add: dist_decreases_def)
  from assms(2) have bc: "getDist c v = getDist b v \<or>
      (\<exists>d d'. getDist b v = Some d \<and> getDist c v = Some d' \<and> d' < d)"
    by (simp add: dist_decreases_def)
  show "getDist c v = getDist a v \<or>
      (\<exists>d d'. getDist a v = Some d \<and> getDist c v = Some d' \<and> d' < d)"
    using ab bc by (auto intro: less_trans)
qed

lemma dist_decreases_setDist:
  "getDist st v = Some dv \<Longrightarrow> d < dv \<Longrightarrow> dist_decreases st (setDist v d st)"
  by (simp add: dist_decreases_def)

lemma dist_decreases_setPred [simp]: "dist_decreases st (setPred v u st')  = dist_decreases st st'"
  by (simp add: dist_decreases_def)

lemma dist_decreases_setComplete [simp]: "dist_decreases st (setComplete v st') = dist_decreases st st'"
  by (simp add: dist_decreases_def)

lemma dist_decreases_foldl:
  assumes "\<And>acc e. dist_decreases (fst acc) (fst (step acc e))"
  shows "dist_decreases (fst acc) (fst (foldl step acc es))"
proof (induction es arbitrary: acc)
  case Nil
  show ?case by simp
next
  case (Cons e es)
  have "dist_decreases (fst acc) (fst (step acc e))" by (rule assms)
  moreover have "dist_decreases (fst (step acc e)) (fst (foldl step (step acc e) es))" by (rule Cons.IH)
  ultimately show ?case using dist_decreases_trans by simp
qed

section \<open>The loops\<close>

lemma baseCase_loop_rule:
  assumes "baseCase_loop g B s = Some y" and "I s"
    and step: "\<And>h inHeap U st u h1 st2 h2 inHeap2.
      I (h, inHeap, U, st) \<Longrightarrow> \<not> isEmpty h \<Longrightarrow> extractMin h = (Some u, h1) \<Longrightarrow>
      foldl (baseCase_edge B u) (setComplete u st, h1, removeAll u inHeap) (neighborsOf g u)
        = (st2, h2, inHeap2) \<Longrightarrow>
      I (h2, inHeap2, U @ [u], st2)"
    and fin: "\<And>h inHeap U st. I (h, inHeap, U, st) \<Longrightarrow> isEmpty h \<Longrightarrow> Q (U, st)"
  shows "Q y"
proof -
  have "g' = g \<longrightarrow> B' = B \<longrightarrow> I s' \<longrightarrow> Q y'" if a: "baseCase_loop g' B' s' = Some y'" for g' B' s' y'
  proof (rule baseCase_loop.raw_induct[OF _ a, where P = "\<lambda>g' B' s y. g' = g \<longrightarrow> B' = B \<longrightarrow> I s \<longrightarrow> Q y"])
    fix loop g' B' s y
    assume IH: "\<And>g' B' s y. loop g' B' s = Some y \<Longrightarrow> g' = g \<longrightarrow> B' = B \<longrightarrow> I s \<longrightarrow> Q y"
      and body: "(case s of
        (h, inHeap, U, st) \<Rightarrow>
          if isEmpty h then Some (U, st)
          else case extractMin h of (None, h1) \<Rightarrow> None
               | (Some u, h1) \<Rightarrow>
                   case foldl (baseCase_edge B' u) (setComplete u st, h1, removeAll u inHeap)
                         (neighborsOf g' u) of
                   (st2, h2, inHeap2) \<Rightarrow> loop g' B' (h2, inHeap2, U @ [u], st2)) = Some y"
    show "g' = g \<longrightarrow> B' = B \<longrightarrow> I s \<longrightarrow> Q y"
    proof (intro impI)
      assume eq: "g' = g" "B' = B" and inv: "I s"
      obtain h inHeap U st where s: "s = (h, inHeap, U, st)" by (cases s) auto
      show "Q y"
      proof (cases "isEmpty h")
        case True
        then have "y = (U, st)" using body s by simp
        then show ?thesis using fin[of h inHeap U st] inv s True by simp
      next
        case False
        obtain uo h1 where e: "extractMin h = (uo, h1)" by (cases "extractMin h") auto
        show ?thesis
        proof (cases uo)
          case None
          then show ?thesis using body s False e by simp
        next
          case (Some u)
          obtain st2 h2 inHeap2 where f:
            "foldl (baseCase_edge B u) (setComplete u st, h1, removeAll u inHeap) (neighborsOf g u)
              = (st2, h2, inHeap2)"
            by (metis prod_cases3)
          have "loop g B (h2, inHeap2, U @ [u], st2) = Some y"
            using body s False e Some f eq by simp
          moreover have "I (h2, inHeap2, U @ [u], st2)"
            using step[of h inHeap U st u h1 st2 h2 inHeap2] inv s False e Some f by simp
          ultimately show ?thesis using IH by blast
        qed
      qed
    qed
  qed
  then show ?thesis using assms(1,2) by blast
qed


lemma BMSSP_loop_rule:
  assumes "BMSSP_loop rec g cap pullCount B s = Some (Inr y)" and "I s"
    and step: "\<And>U B_prime frontier st Si Bi frontier1 subB subU st1 st2 frontier2.
      I (U, B_prime, frontier, st) \<Longrightarrow> length U < cap \<Longrightarrow> hasElements frontier \<Longrightarrow>
      pull pullCount frontier = ((Si, Bi), frontier1) \<Longrightarrow> Si \<noteq> [] \<Longrightarrow>
      rec Bi Si st = Some (Inr ((subB, subU), st1)) \<Longrightarrow>
      relaxEdges g subU Bi B (st1, frontier1) = (st2, frontier2) \<Longrightarrow>
      I (U @ subU, min B_prime subB, frontier2, st2)"
    and fin: "\<And>U B_prime frontier st. I (U, B_prime, frontier, st) \<Longrightarrow> Q (U, B_prime, st)"
  shows "Q y"
proof -
  have "rec' = rec \<longrightarrow> g' = g \<longrightarrow> cap' = cap \<longrightarrow> pc' = pullCount \<longrightarrow> B' = B \<longrightarrow> I s'
      \<longrightarrow> (\<forall>y. r' = Inr y \<longrightarrow> Q y)"
    if a: "BMSSP_loop rec' g' cap' pc' B' s' = Some r'" for rec' g' cap' pc' B' s' r'
  proof (rule BMSSP_loop.raw_induct[OF _ a, where P = "\<lambda>rec' g' cap' pc' B' s r.
      rec' = rec \<longrightarrow> g' = g \<longrightarrow> cap' = cap \<longrightarrow> pc' = pullCount \<longrightarrow> B' = B \<longrightarrow> I s
        \<longrightarrow> (\<forall>y. r = Inr y \<longrightarrow> Q y)"])
    fix loop rec' g' cap' pc' B' s r
    assume IH: "\<And>rec' g' cap' pc' B' s r. loop rec' g' cap' pc' B' s = Some r \<Longrightarrow>
        rec' = rec \<longrightarrow> g' = g \<longrightarrow> cap' = cap \<longrightarrow> pc' = pullCount \<longrightarrow> B' = B \<longrightarrow> I s
          \<longrightarrow> (\<forall>y. r = Inr y \<longrightarrow> Q y)"
      and body: "(case s of
        (U, B_prime, frontier, st) \<Rightarrow>
          if length U < cap' \<and> hasElements frontier
          then case pull pc' frontier of
               ((Si, Bi), frontier1) \<Rightarrow>
                 if length Si = 0 then Some (Inr (U, B_prime, st))
                 else case rec' Bi Si st of None \<Rightarrow> None
                      | Some (Inl e) \<Rightarrow> Some (Inl e)
                      | Some (Inr ((subB, subU), st1)) \<Rightarrow>
                          case relaxEdges g' subU Bi B' (st1, frontier1) of
                          (st2, frontier2) \<Rightarrow>
                            if cap' \<le> length (U @ subU)
                            then Some (Inr (U @ subU, min B_prime subB, st2))
                            else loop rec' g' cap' pc' B'
                                  (U @ subU, min B_prime subB, frontier2, st2)
          else Some (Inr (U, B_prime, st))) = Some r"
    show "rec' = rec \<longrightarrow> g' = g \<longrightarrow> cap' = cap \<longrightarrow> pc' = pullCount \<longrightarrow> B' = B \<longrightarrow> I s
        \<longrightarrow> (\<forall>y. r = Inr y \<longrightarrow> Q y)"
    proof (intro impI allI)
      fix y
      assume eq: "rec' = rec" "g' = g" "cap' = cap" "pc' = pullCount" "B' = B" and inv: "I s"
        and ry: "r = Inr y"
      obtain U B_prime frontier st where s: "s = (U, B_prime, frontier, st)" by (cases s) auto
      show "Q y"
      proof (cases "length U < cap \<and> hasElements frontier")
        case False
        then have "y = (U, B_prime, st)" using body s eq ry by auto
        then show ?thesis using fin inv s by simp
      next
        case True
        obtain Si Bi frontier1 where p: "pull pullCount frontier = ((Si, Bi), frontier1)"
          by (metis prod.collapse)
        show ?thesis
        proof (cases "Si = []")
          case e: True
          then have "y = (U, B_prime, st)" using body s eq True p ry by simp
          then show ?thesis using fin inv s by simp
        next
          case ne: False
          show ?thesis
          proof (cases "rec Bi Si st")
            case None
            then show ?thesis using body s eq True p ne by simp
          next
            case (Some x)
            show ?thesis
            proof (cases x)
              case (Inl e)
              then show ?thesis using body s eq True p ne Some ry by simp
            next
              case (Inr x')
              obtain subB subU st1 where r: "x' = ((subB, subU), st1)" by (metis prod.collapse)
              obtain st2 frontier2 where re: "relaxEdges g subU Bi B (st1, frontier1) = (st2, frontier2)"
                by (metis prod.collapse)
              have inv2: "I (U @ subU, min B_prime subB, frontier2, st2)"
                using step[of U B_prime frontier st Si Bi frontier1 subB subU st1 st2 frontier2]
                  inv s True p ne Some Inr r re by simp
              show ?thesis
              proof (cases "cap \<le> length (U @ subU)")
                case c: True
                then have "y = (U @ subU, min B_prime subB, st2)"
                  using body s eq True p ne Some Inr r re ry by simp
                then show ?thesis using fin inv2 by simp
              next
                case c: False
                then have "loop rec g cap pullCount B (U @ subU, min B_prime subB, frontier2, st2) = Some r"
                  using body s eq True p ne Some Inr r re by simp
                then show ?thesis using IH inv2 ry by blast
              qed
            qed
          qed
        qed
      qed
    qed
  qed
  then show ?thesis using assms(1,2) by blast
qed

section \<open>Writes to the distance table\<close>

lemma dist_decreases_findPivots_edge:
  "dist_decreases (fst acc) (fst (findPivots_edge B u acc e))"
  by (cases acc; cases e)
     (auto simp: findPivots_edge_def Let_def dist_decreases_setDist split: option.splits)

lemma dist_decreases_findPivots_vertex:
  "dist_decreases (fst acc) (fst (findPivots_vertex g B acc u))"
  unfolding findPivots_vertex_def
  using dist_decreases_foldl[where step = "findPivots_edge B u" and acc = acc
      and es = "neighborsOf g u", OF dist_decreases_findPivots_edge]
  by simp

lemma dist_decreases_findPivots_rounds:
  "dist_decreases st (snd (snd (findPivots_rounds g k B S r layer W st)))"
proof (induction r arbitrary: layer W st)
  case 0
  show ?case by simp
next
  case (Suc r)
  obtain st' nextLayer W' where f: "foldl (findPivots_vertex g B) (st, [], W) layer = (st', nextLayer, W')"
    by (metis prod_cases3)
  have a: "dist_decreases st st'"
    using dist_decreases_foldl[where step = "findPivots_vertex g B" and acc = "(st, [], W)"
        and es = layer, OF dist_decreases_findPivots_vertex] f by simp
  show ?case
  proof (cases "k * length S < length W'")
    case True
    then show ?thesis using f a by simp
  next
    case False
    then have "findPivots_rounds g k B S (Suc r) layer W st = findPivots_rounds g k B S r nextLayer W' st'"
      using f by simp
    moreover have "dist_decreases st' (snd (snd (findPivots_rounds g k B S r nextLayer W' st')))"
      by (rule Suc.IH)
    ultimately show ?thesis using a dist_decreases_trans by metis
  qed
qed

lemma dist_decreases_findPivots: "dist_decreases st (snd (findPivots g k B S st))"
  using dist_decreases_findPivots_rounds[of st g k B S k "newSet S" "newSet S"]
  by (auto simp: findPivots_def split: prod.splits)

lemma dist_decreases_baseCase_edge:
  "dist_decreases (fst acc) (fst (baseCase_edge B u acc e))"
  by (cases acc; cases e)
     (auto simp: baseCase_edge_def Let_def dist_decreases_setDist split: option.splits)

lemma dist_decreases_baseCase_loop:
  assumes "baseCase_loop g B (h, inHeap, U, st) = Some (U', st')" "dist_decreases st0 st"
  shows "dist_decreases st0 st'"
proof (rule baseCase_loop_rule[OF assms(1), where I = "\<lambda>(h, inHeap, U, st). dist_decreases st0 st"
      and Q = "\<lambda>(U, st). dist_decreases st0 st", simplified])
  show "dist_decreases st0 st" by (rule assms(2))
next
  fix h inHeap U st u h1 st2 h2 inHeap2
  assume a: "dist_decreases st0 st"
    and f: "foldl (baseCase_edge B u) (setComplete u st, h1, removeAll u inHeap) (neighborsOf g u)
        = (st2, h2, inHeap2)"
  have "dist_decreases (setComplete u st) st2"
    using dist_decreases_foldl[where step = "baseCase_edge B u"
        and acc = "(setComplete u st, h1, removeAll u inHeap)" and es = "neighborsOf g u",
        OF dist_decreases_baseCase_edge] f by simp
  then have "dist_decreases st st2" by (simp add: dist_decreases_def)
  then show "dist_decreases st0 st2" using a dist_decreases_trans by blast
qed

lemma dist_decreases_baseCase:
  assumes "baseCase g B S st = Some (Inr (r, st'))"
  shows "dist_decreases st st'"
proof (cases S)
  case Nil
  then show ?thesis using assms by (simp add: baseCase_def)
next
  case (Cons source rest)
  show ?thesis
  proof (cases "getDist st source")
    case None
    then show ?thesis using assms Cons by (simp add: baseCase_def)
  next
    case (Some d)
    then obtain U where "baseCase_loop g B (MinHeap_insert source d newMinHeap, [source], [], st) = Some (U, st')"
      using assms Cons by (auto simp: baseCase_def split: option.splits)
    then show ?thesis using dist_decreases_baseCase_loop by simp
  qed
qed

lemma dist_decreases_relaxEdges_edge:
  "dist_decreases (fst acc) (fst (relaxEdges_edge Bi B u acc e))"
  by (cases acc; cases e)
     (auto simp: relaxEdges_edge_def Let_def dist_decreases_setDist split: option.splits)

lemma dist_decreases_relaxEdges_vertex:
  "dist_decreases (fst acc) (fst (relaxEdges_vertex g Bi B acc u))"
proof -
  have "dist_decreases (setComplete u (fst acc)) (fst (relaxEdges_vertex g Bi B acc u))"
    unfolding relaxEdges_vertex_def
    using dist_decreases_foldl[where step = "relaxEdges_edge Bi B u"
        and acc = "(setComplete u (fst acc), snd acc)" and es = "neighborsOf g u",
        OF dist_decreases_relaxEdges_edge] by simp
  then show ?thesis by (simp add: dist_decreases_def)
qed

lemma dist_decreases_relaxEdges:
  "dist_decreases (fst acc) (fst (relaxEdges g vertices Bi B acc))"
  unfolding relaxEdges_def
  by (rule dist_decreases_foldl) (rule dist_decreases_relaxEdges_vertex)

lemma dist_decreases_BMSSP_loop:
  assumes "BMSSP_loop rec g cap pullCount B (U, B_prime, frontier, st) = Some (Inr (U', B'', st'))"
    and "dist_decreases st0 st"
    and rec: "\<And>Bi Si st r st'. rec Bi Si st = Some (Inr (r, st')) \<Longrightarrow> dist_decreases st st'"
  shows "dist_decreases st0 st'"
proof (rule BMSSP_loop_rule[OF assms(1), where I = "\<lambda>(U, B_prime, frontier, st). dist_decreases st0 st"
      and Q = "\<lambda>(U, B_prime, st). dist_decreases st0 st", simplified])
  show "dist_decreases st0 st" by (rule assms(2))
next
  fix st Si Bi frontier1 subB subU st1 st2 frontier2
  assume a: "dist_decreases st0 st"
    and r: "rec Bi Si st = Some (Inr ((subB, subU), st1))"
    and re: "relaxEdges g subU Bi B (st1, frontier1) = (st2, frontier2)"
  have "dist_decreases st st1" using rec r by blast
  moreover have "dist_decreases st1 st2"
    using dist_decreases_relaxEdges[of "(st1, frontier1)" g subU Bi B] re by simp
  ultimately show "dist_decreases st0 st2" using a dist_decreases_trans by blast
qed

lemma dist_decreases_BMSSP:
  "BMSSP g k t l B S st = Some (Inr (r, st')) \<Longrightarrow> dist_decreases st st'"
proof (induction l arbitrary: B S st r st')
  case 0
  then show ?case using dist_decreases_baseCase by simp
next
  case (Suc l)
  obtain pivots W st1 where fp: "findPivots g k B S st = ((pivots, W), st1)"
    by (metis prod.collapse)
  have a: "dist_decreases st st1" using dist_decreases_findPivots[of st g k B S] fp by simp
  from Suc.prems fp obtain frontier U B_prime where
    l: "BMSSP_loop (BMSSP g k t l) g (k * 2 ^ (Suc l * t)) (2 ^ (l * t)) B ([], B, frontier, st1)
        = Some (Inr (U, B_prime, st'))"
    by (auto split: option.splits sum.splits)
  have "dist_decreases st1 st'"
    using dist_decreases_BMSSP_loop[OF l dist_decreases_refl] Suc.IH by blast
  then show ?case using a dist_decreases_trans by blast
qed

text \<open>
  Claim C4. Every write to \<open>dist\<close> made by \<open>findPivots\<close>, by \<open>baseCase\<close> and by
  \<open>relaxEdges\<close> replaces the stored value by a strictly smaller one: between the state
  each of them is given and the state it leaves, every entry of \<open>dist\<close> is unchanged or
  strictly smaller. The same holds across a whole \<open>BMSSP\<close> call at any level, hence at
  every point of a solve after the source is set.
\<close>

theorem dist_only_decreases:
  "dist_decreases st (snd (findPivots g k B S st)) \<and>
   (baseCase g B S st = Some (Inr (r, st')) \<longrightarrow> dist_decreases st st') \<and>
   dist_decreases st (fst (relaxEdges g vertices Bi B (st, frontier))) \<and>
   (BMSSP g k t l B S st = Some (Inr (r, st')) \<longrightarrow> dist_decreases st st')"
  using dist_decreases_findPivots[of st g k B S] dist_decreases_baseCase[of g B S st r st']
    dist_decreases_relaxEdges[of "(st, frontier)" g vertices Bi B]
    dist_decreases_BMSSP[of g k t l B S st r st']
  by simp

theorem dist_only_decreases_witness:
  "baseCase (edgeGraph 4) Infinity [0] (tbl Infinity (- 1) False)
     = Some (Inr ((Infinity, [0, 1]), tbl (Fin 4) 0 True)) \<and>
   dist_decreases (tbl Infinity (- 1) False) (tbl (Fin 4) 0 True)"
proof -
  have a: "baseCase (edgeGraph 4) Infinity [0] (tbl Infinity (- 1) False)
     = Some (Inr ((Infinity, [0, 1]), tbl (Fin 4) 0 True))"
    by code_simp
  show ?thesis
    using a dist_only_decreases[where st = "tbl Infinity (- 1) False" and g = "edgeGraph 4"
        and B = Infinity and S = "[0]" and r = "(Infinity, [0, 1])" and st' = "tbl (Fin 4) 0 True"]
    by blast
qed

section \<open>relaxEdges\<close>

lemma relaxed_refl [simp]: "relaxed st st"
  by (simp add: relaxed_def)

lemma relaxed_trans:
  assumes "relaxed a b" "relaxed b c"
  shows "relaxed a c"
proof -
  have dd: "dist_decreases a c" using assms dist_decreases_trans by (auto simp: relaxed_def)
  have pr: "\<exists>d d'. getDist a x = Some d \<and> getDist c x = Some d' \<and> d' < d"
    if x: "map_of (predArr c) x \<noteq> map_of (predArr a) x" for x
  proof -
    have ab: "getDist b x = getDist a x \<or> (\<exists>d d'. getDist a x = Some d \<and> getDist b x = Some d' \<and> d' < d)"
      using assms(1) by (simp add: relaxed_def dist_decreases_def)
    have bc: "getDist c x = getDist b x \<or> (\<exists>d d'. getDist b x = Some d \<and> getDist c x = Some d' \<and> d' < d)"
      using assms(2) by (simp add: relaxed_def dist_decreases_def)
    have "map_of (predArr c) x \<noteq> map_of (predArr b) x \<or> map_of (predArr b) x \<noteq> map_of (predArr a) x"
      using x by auto
    then show ?thesis
    proof
      assume "map_of (predArr c) x \<noteq> map_of (predArr b) x"
      then have "\<exists>d d'. getDist b x = Some d \<and> getDist c x = Some d' \<and> d' < d"
        using assms(2) by (simp add: relaxed_def)
      then show ?thesis using ab by (auto intro: less_trans)
    next
      assume "map_of (predArr b) x \<noteq> map_of (predArr a) x"
      then have "\<exists>d d'. getDist a x = Some d \<and> getDist b x = Some d' \<and> d' < d"
        using assms(1) by (simp add: relaxed_def)
      then show ?thesis using bc by (auto intro: less_trans)
    qed
  qed
  show ?thesis unfolding relaxed_def using dd pr assms by (auto simp: relaxed_def)
qed

lemma relaxed_foldl:
  assumes "\<And>acc e. relaxed (fst acc) (fst (step acc e))"
  shows "relaxed (fst acc) (fst (foldl step acc es))"
proof (induction es arbitrary: acc)
  case Nil
  show ?case by simp
next
  case (Cons e es)
  have "relaxed (fst acc) (fst (step acc e))" by (rule assms)
  moreover have "relaxed (fst (step acc e)) (fst (foldl step (step acc e) es))" by (rule Cons.IH)
  ultimately show ?case using relaxed_trans by simp
qed

lemma relaxed_relaxEdges_edge: "relaxed (fst acc) (fst (relaxEdges_edge Bi B u acc e))"
  by (cases acc; cases e)
     (auto simp: relaxEdges_edge_def Let_def relaxed_def dist_decreases_setDist split: option.splits)

lemma relaxed_setComplete: "relaxed st (setComplete u st)"
  by (simp add: relaxed_def)

lemma relaxed_relaxEdges_vertex: "relaxed (fst acc) (fst (relaxEdges_vertex g Bi B acc u))"
proof -
  have "relaxed (setComplete u (fst acc)) (fst (relaxEdges_vertex g Bi B acc u))"
    unfolding relaxEdges_vertex_def
    using relaxed_foldl[where step = "relaxEdges_edge Bi B u"
        and acc = "(setComplete u (fst acc), snd acc)" and es = "neighborsOf g u",
        OF relaxed_relaxEdges_edge] by simp
  then show ?thesis using relaxed_setComplete relaxed_trans by blast
qed

lemma relaxed_relaxEdges: "relaxed (fst acc) (fst (relaxEdges g vertices Bi B acc))"
  unfolding relaxEdges_def
  by (rule relaxed_foldl) (rule relaxed_relaxEdges_vertex)

text \<open>The flags after \<open>relaxEdges\<close>: the old ones and the sources.\<close>

lemma isComplete_relaxEdges_edge [simp]:
  "isComplete (fst (relaxEdges_edge Bi B u acc e)) = isComplete (fst acc)"
  by (cases acc; cases e)
     (auto simp: relaxEdges_edge_def Let_def split: option.splits)

lemma isComplete_foldl_relaxEdges_edge [simp]:
  "isComplete (fst (foldl (relaxEdges_edge Bi B u) acc es)) = isComplete (fst acc)"
  by (induction es arbitrary: acc) simp_all

lemma isComplete_relaxEdges_vertex:
  "isComplete (fst (relaxEdges_vertex g Bi B acc u)) x = (x = u \<or> isComplete (fst acc) x)"
  by (simp add: relaxEdges_vertex_def)

lemma isComplete_relaxEdges:
  "isComplete (fst (relaxEdges g vertices Bi B acc)) x = (x \<in> set vertices \<or> isComplete (fst acc) x)"
  unfolding relaxEdges_def
  by (induction vertices arbitrary: acc) (auto simp: isComplete_relaxEdges_vertex)

text \<open>When one neighbor is put into the frontier.\<close>

lemma frontier_has_insert [simp]:
  "frontier_has (AdaptiveFrontier_insert v d f) x = (x = v \<or> frontier_has f x)"
  by (auto simp: frontier_has_def AdaptiveFrontier_insert_def update_conv' split: option.splits)

lemma frontier_relaxEdges_edge:
  "frontier_has (snd (relaxEdges_edge Bi B u (st, f) (v, w))) x =
     (frontier_has f x \<or>
      x = v \<and> (\<exists>du dv. getDist st u = Some du \<and> getDist st v = Some dv \<and>
         plus_weight du w \<le> dv \<and> plus_weight du w < B \<and> \<not> isComplete st v \<and>
         (Bi = Infinity \<or> Bi \<le> plus_weight du w)))"
  by (auto simp: relaxEdges_edge_def Let_def split: option.splits)

lemma plus_weight_mono: "d1 \<le> d2 \<Longrightarrow> plus_weight d1 w \<le> plus_weight d2 w"
  by (cases d1; cases d2) auto

lemma dist_decreases_le:
  assumes "dist_decreases a b" "getDist a v = Some d"
  shows "\<exists>d'. getDist b v = Some d' \<and> d' \<le> d"
proof -
  have "getDist b v = getDist a v \<or> (\<exists>e e'. getDist a v = Some e \<and> getDist b v = Some e' \<and> e' < e)"
    using assms(1) by (simp add: dist_decreases_def)
  then show ?thesis using assms(2) by auto
qed

lemma foldl_establish:
  assumes "I a0" "e0 \<in> set es"
    and mono: "\<And>a e. I a \<Longrightarrow> I (step a e)"
    and est: "\<And>a. I a \<Longrightarrow> Q (step a e0)"
    and keep: "\<And>a e. I a \<Longrightarrow> Q a \<Longrightarrow> Q (step a e)"
  shows "Q (foldl step a0 es)"
proof -
  have k: "I a \<Longrightarrow> Q a \<Longrightarrow> I (foldl step a es) \<and> Q (foldl step a es)" for a es
    by (induction es arbitrary: a) (auto intro: mono keep)
  show ?thesis using assms(1,2)
  proof (induction es arbitrary: a0)
    case Nil
    then show ?case by simp
  next
    case (Cons e es)
    show ?case
    proof (cases "e = e0")
      case True
      then show ?thesis using k[of "step a0 e0" es] mono[OF Cons.prems(1)] est[OF Cons.prems(1)] by simp
    next
      case False
      then have "e0 \<in> set es" using Cons.prems(2) by simp
      then show ?thesis using Cons.IH[OF mono[OF Cons.prems(1)]] by simp
    qed
  qed
qed

text \<open>The step for one edge, through what can be read from the tables and the frontier.\<close>

lemma relaxEdges_edge_tables:
  assumes "getDist st u = Some du" "getDist st v = Some dv"
  shows "fst (relaxEdges_edge Bi B u (st, f) (v, w)) =
    (if plus_weight du w < dv \<and> plus_weight du w < B
     then setPred v u (setDist v (plus_weight du w) st) else st)"
  using assms by (auto simp: relaxEdges_edge_def Let_def)

lemma relaxEdges_edge_undefined:
  "getDist st u = None \<or> getDist st v = None \<Longrightarrow> relaxEdges_edge Bi B u (st, f) (v, w) = (st, f)"
  by (auto simp: relaxEdges_edge_def split: option.splits)

lemma relaxEdges_Nil: "relaxEdges g [] Bi B acc = acc"
  by (simp add: relaxEdges_def)

lemma relaxEdges_Cons:
  "relaxEdges g (u # us) Bi B (st, f) =
     relaxEdges g us Bi B (foldl (relaxEdges_edge Bi B u) (setComplete u st, f) (neighborsOf g u))"
  by (simp add: relaxEdges_def relaxEdges_vertex_def)

lemma map_of_AdaptiveFrontier_insert:
  "map_of (AdaptiveFrontier_insert v d f) =
    (map_of f)(v \<mapsto> (case map_of f v of None \<Rightarrow> d | Some d0 \<Rightarrow> min d0 d))"
  by (auto simp: AdaptiveFrontier_insert_def update_conv' min_def split: option.splits)

lemma relaxEdges_edge_frontier:
  assumes "getDist st u = Some du" "getDist st v = Some dv"
  shows "snd (relaxEdges_edge Bi B u (st, f) (v, w)) =
    (if plus_weight du w \<le> dv \<and> plus_weight du w < B \<and> \<not> isComplete st v \<and>
        (Bi = Infinity \<or> Bi \<le> plus_weight du w)
     then AdaptiveFrontier_insert v (plus_weight du w) f else f)"
  using assms by (auto simp: relaxEdges_edge_def Let_def)

lemma relaxEdges_edge_le:
  assumes "dist_decreases st (fst acc)" "getDist st u = Some du" "getDist st v = Some dv"
    "plus_weight du w < B"
  shows "\<exists>d'. getDist (fst (relaxEdges_edge Bi B u acc (v, w))) v = Some d' \<and> d' \<le> plus_weight du w"
proof -
  obtain cur f where acc: "acc = (cur, f)" by (cases acc) auto
  obtain cu where cu: "getDist cur u = Some cu" "cu \<le> du"
    using dist_decreases_le[OF assms(1,2)] acc by auto
  obtain cv where cv: "getDist cur v = Some cv" "cv \<le> dv"
    using dist_decreases_le[OF assms(1,3)] acc by auto
  have nd: "plus_weight cu w \<le> plus_weight du w" using cu(2) by (rule plus_weight_mono)
  then have b: "plus_weight cu w < B" using assms(4) by simp
  show ?thesis
  proof (cases "plus_weight cu w < cv")
    case True
    then show ?thesis using acc cu cv b nd by (simp add: relaxEdges_edge_tables)
  next
    case False
    then have "cv \<le> plus_weight du w" using nd by simp
    then show ?thesis using acc cu cv False by (simp add: relaxEdges_edge_tables)
  qed
qed

lemma relaxEdges_vertex_le:
  assumes "dist_decreases st (fst acc)" "getDist st u = Some du" "getDist st v = Some dv"
    "plus_weight du w < B" "(v, w) \<in> set (neighborsOf g u)"
  shows "\<exists>d'. getDist (fst (relaxEdges_vertex g Bi B acc u)) v = Some d' \<and> d' \<le> plus_weight du w"
  unfolding relaxEdges_vertex_def
proof (rule foldl_establish[where I = "\<lambda>a :: tables \<times> AdaptiveFrontier. dist_decreases st (fst a)" and ?e0.0 = "(v, w)"])
  show "dist_decreases st (fst (setComplete u (fst acc), snd acc))" using assms(1) by simp
  show "(v, w) \<in> set (neighborsOf g u)" by (rule assms(5))
next
  fix a :: "tables \<times> AdaptiveFrontier" and e assume "dist_decreases st (fst a)"
  then show "dist_decreases st (fst (relaxEdges_edge Bi B u a e))"
    using dist_decreases_relaxEdges_edge[of a Bi B u e] dist_decreases_trans by blast
next
  fix a :: "tables \<times> AdaptiveFrontier" assume "dist_decreases st (fst a)"
  then show "\<exists>d'. getDist (fst (relaxEdges_edge Bi B u a (v, w))) v = Some d' \<and> d' \<le> plus_weight du w"
    using assms(2,3,4) by (rule relaxEdges_edge_le)
next
  fix a :: "tables \<times> AdaptiveFrontier" and e
  assume "\<exists>d'. getDist (fst a) v = Some d' \<and> d' \<le> plus_weight du w"
  then obtain d' where d': "getDist (fst a) v = Some d'" "d' \<le> plus_weight du w" by blast
  obtain d'' where "getDist (fst (relaxEdges_edge Bi B u a e)) v = Some d''" "d'' \<le> d'"
    using dist_decreases_le[OF dist_decreases_relaxEdges_edge d'(1)] by blast
  then show "\<exists>d'. getDist (fst (relaxEdges_edge Bi B u a e)) v = Some d' \<and> d' \<le> plus_weight du w"
    using d'(2) by auto
qed

lemma relaxEdges_le:
  assumes "u \<in> set vertices" "(v, w) \<in> set (neighborsOf g u)"
    "getDist st u = Some du" "getDist st v = Some dv" "plus_weight du w < B"
  shows "\<exists>d'. getDist (fst (relaxEdges g vertices Bi B (st, f))) v = Some d' \<and> d' \<le> plus_weight du w"
  unfolding relaxEdges_def
proof (rule foldl_establish[where I = "\<lambda>a :: tables \<times> AdaptiveFrontier. dist_decreases st (fst a)" and ?e0.0 = u])
  show "dist_decreases st (fst (st, f))" by simp
  show "u \<in> set vertices" by (rule assms(1))
next
  fix a :: "tables \<times> AdaptiveFrontier" and e assume "dist_decreases st (fst a)"
  then show "dist_decreases st (fst (relaxEdges_vertex g Bi B a e))"
    using dist_decreases_relaxEdges_vertex[of a g Bi B e] dist_decreases_trans by blast
next
  fix a :: "tables \<times> AdaptiveFrontier" assume "dist_decreases st (fst a)"
  then show "\<exists>d'. getDist (fst (relaxEdges_vertex g Bi B a u)) v = Some d' \<and> d' \<le> plus_weight du w"
    using assms(3,4,5,2) by (rule relaxEdges_vertex_le)
next
  fix a :: "tables \<times> AdaptiveFrontier" and e
  assume "\<exists>d'. getDist (fst a) v = Some d' \<and> d' \<le> plus_weight du w"
  then obtain d' where d': "getDist (fst a) v = Some d'" "d' \<le> plus_weight du w" by blast
  obtain d'' where "getDist (fst (relaxEdges_vertex g Bi B a e)) v = Some d''" "d'' \<le> d'"
    using dist_decreases_le[OF dist_decreases_relaxEdges_vertex d'(1)] by blast
  then show "\<exists>d'. getDist (fst (relaxEdges_vertex g Bi B a e)) v = Some d' \<and> d' \<le> plus_weight du w"
    using d'(2) by auto
qed

text \<open>
  Claim C5, amended. \<open>relaxEdges\<close> handles the vertices of \<open>subU\<close> in order: each is marked
  complete and its edges are relaxed one after the other. Across the whole call the flags
  set are the old ones and those of \<open>subU\<close>, distances only become smaller, a predecessor
  differs only where the distance is strictly smaller, and for every edge \<open>a \<rightarrow> b\<close> of
  weight \<open>c\<close> out of \<open>subU\<close> whose candidate \<open>dist[a] + c\<close> (with the distance at the start) is
  below \<open>B\<close>, the distance of \<open>b\<close> ends up at most that candidate. While the edge
  \<open>u \<rightarrow> v\<close> of weight \<open>w\<close> is handled, with \<open>newDist = dist[u] + w\<close>: if \<open>newDist\<close> is strictly
  below \<open>dist[v]\<close> and below \<open>B\<close> then \<open>dist[v]\<close> becomes \<open>newDist\<close> and \<open>pred[v]\<close> becomes \<open>u\<close>,
  and otherwise the tables are left as they are; \<open>v\<close> is inserted in the frontier, with
  \<open>newDist\<close> (or the smaller distance already stored for it), exactly when \<open>newDist\<close> is at
  most \<open>dist[v]\<close> and below \<open>B\<close>, \<open>v\<close> is not complete, and \<open>Bi\<close> is \<open>Infinity\<close> or
  \<open>newDist \<ge> Bi\<close>; otherwise the frontier is left as it is. An edge with an end that has no
  \<open>dist\<close> entry changes nothing.
\<close>

theorem relaxEdges_effect:
  "(\<forall>x. isComplete (fst (relaxEdges g vertices Bi B (st, f))) x = (x \<in> set vertices \<or> isComplete st x)) \<and>
   dist_decreases st (fst (relaxEdges g vertices Bi B (st, f))) \<and>
   (\<forall>x. map_of (predArr (fst (relaxEdges g vertices Bi B (st, f)))) x \<noteq> map_of (predArr st) x \<longrightarrow>
        (\<exists>d d'. getDist st x = Some d \<and> getDist (fst (relaxEdges g vertices Bi B (st, f))) x = Some d' \<and> d' < d)) \<and>
   (\<forall>a b c da db. a \<in> set vertices \<and> (b, c) \<in> set (neighborsOf g a) \<and>
        getDist st a = Some da \<and> getDist st b = Some db \<and> plus_weight da c < B \<longrightarrow>
        (\<exists>d'. getDist (fst (relaxEdges g vertices Bi B (st, f))) b = Some d' \<and> d' \<le> plus_weight da c)) \<and>
   relaxEdges g [] Bi B (st, f) = (st, f) \<and>
   relaxEdges g (u # us) Bi B (st, f) =
     relaxEdges g us Bi B (foldl (relaxEdges_edge Bi B u) (setComplete u st, f) (neighborsOf g u)) \<and>
   (getDist st u = None \<or> getDist st v = None \<longrightarrow> relaxEdges_edge Bi B u (st, f) (v, w) = (st, f)) \<and>
   (getDist st u = Some du \<and> getDist st v = Some dv \<longrightarrow>
      (plus_weight du w < dv \<and> plus_weight du w < B \<longrightarrow>
         getDist (fst (relaxEdges_edge Bi B u (st, f) (v, w))) = (getDist st)(v \<mapsto> plus_weight du w) \<and>
         map_of (predArr (fst (relaxEdges_edge Bi B u (st, f) (v, w)))) = (map_of (predArr st))(v \<mapsto> u) \<and>
         isComplete (fst (relaxEdges_edge Bi B u (st, f) (v, w))) = isComplete st) \<and>
      (\<not> (plus_weight du w < dv \<and> plus_weight du w < B) \<longrightarrow>
         fst (relaxEdges_edge Bi B u (st, f) (v, w)) = st) \<and>
      (plus_weight du w \<le> dv \<and> plus_weight du w < B \<and> \<not> isComplete st v \<and>
         (Bi = Infinity \<or> Bi \<le> plus_weight du w) \<longrightarrow>
         map_of (snd (relaxEdges_edge Bi B u (st, f) (v, w))) =
           (map_of f)(v \<mapsto> (case map_of f v of None \<Rightarrow> plus_weight du w
                                | Some d0 \<Rightarrow> min d0 (plus_weight du w)))) \<and>
      (\<not> (plus_weight du w \<le> dv \<and> plus_weight du w < B \<and> \<not> isComplete st v \<and>
         (Bi = Infinity \<or> Bi \<le> plus_weight du w)) \<longrightarrow>
         snd (relaxEdges_edge Bi B u (st, f) (v, w)) = f))"
proof -
  have a: "\<forall>x. isComplete (fst (relaxEdges g vertices Bi B (st, f))) x = (x \<in> set vertices \<or> isComplete st x)"
    using isComplete_relaxEdges[of g vertices Bi B "(st, f)"] by simp
  have b: "dist_decreases st (fst (relaxEdges g vertices Bi B (st, f)))"
    using dist_decreases_relaxEdges[of "(st, f)" g vertices Bi B] by simp
  have c: "\<forall>x. map_of (predArr (fst (relaxEdges g vertices Bi B (st, f)))) x \<noteq> map_of (predArr st) x \<longrightarrow>
        (\<exists>d d'. getDist st x = Some d \<and> getDist (fst (relaxEdges g vertices Bi B (st, f))) x = Some d' \<and> d' < d)"
    using relaxed_relaxEdges[of "(st, f)" g vertices Bi B] by (simp add: relaxed_def)
  have d: "\<forall>a b c da db. a \<in> set vertices \<and> (b, c) \<in> set (neighborsOf g a) \<and>
        getDist st a = Some da \<and> getDist st b = Some db \<and> plus_weight da c < B \<longrightarrow>
        (\<exists>d'. getDist (fst (relaxEdges g vertices Bi B (st, f))) b = Some d' \<and> d' \<le> plus_weight da c)"
    using relaxEdges_le[of _ vertices _ _ g st _ _ B Bi f] by blast
  have e: "getDist st u = None \<or> getDist st v = None \<longrightarrow> relaxEdges_edge Bi B u (st, f) (v, w) = (st, f)"
    using relaxEdges_edge_undefined[of st u v Bi B f w] by blast
  have g: "getDist st u = Some du \<and> getDist st v = Some dv \<longrightarrow>
      (plus_weight du w < dv \<and> plus_weight du w < B \<longrightarrow>
         getDist (fst (relaxEdges_edge Bi B u (st, f) (v, w))) = (getDist st)(v \<mapsto> plus_weight du w) \<and>
         map_of (predArr (fst (relaxEdges_edge Bi B u (st, f) (v, w)))) = (map_of (predArr st))(v \<mapsto> u) \<and>
         isComplete (fst (relaxEdges_edge Bi B u (st, f) (v, w))) = isComplete st) \<and>
      (\<not> (plus_weight du w < dv \<and> plus_weight du w < B) \<longrightarrow>
         fst (relaxEdges_edge Bi B u (st, f) (v, w)) = st) \<and>
      (plus_weight du w \<le> dv \<and> plus_weight du w < B \<and> \<not> isComplete st v \<and>
         (Bi = Infinity \<or> Bi \<le> plus_weight du w) \<longrightarrow>
         map_of (snd (relaxEdges_edge Bi B u (st, f) (v, w))) =
           (map_of f)(v \<mapsto> (case map_of f v of None \<Rightarrow> plus_weight du w
                                | Some d0 \<Rightarrow> min d0 (plus_weight du w)))) \<and>
      (\<not> (plus_weight du w \<le> dv \<and> plus_weight du w < B \<and> \<not> isComplete st v \<and>
         (Bi = Infinity \<or> Bi \<le> plus_weight du w)) \<longrightarrow>
         snd (relaxEdges_edge Bi B u (st, f) (v, w)) = f)"
  proof (intro impI)
    assume h: "getDist st u = Some du \<and> getDist st v = Some dv"
    then have t: "fst (relaxEdges_edge Bi B u (st, f) (v, w)) =
        (if plus_weight du w < dv \<and> plus_weight du w < B
         then setPred v u (setDist v (plus_weight du w) st) else st)"
      and fr: "snd (relaxEdges_edge Bi B u (st, f) (v, w)) =
        (if plus_weight du w \<le> dv \<and> plus_weight du w < B \<and> \<not> isComplete st v \<and>
            (Bi = Infinity \<or> Bi \<le> plus_weight du w)
         then AdaptiveFrontier_insert v (plus_weight du w) f else f)"
      using relaxEdges_edge_tables[of st u du v dv Bi B f w]
        relaxEdges_edge_frontier[of st u du v dv Bi B f w] by simp_all
    show "(plus_weight du w < dv \<and> plus_weight du w < B \<longrightarrow>
         getDist (fst (relaxEdges_edge Bi B u (st, f) (v, w))) = (getDist st)(v \<mapsto> plus_weight du w) \<and>
         map_of (predArr (fst (relaxEdges_edge Bi B u (st, f) (v, w)))) = (map_of (predArr st))(v \<mapsto> u) \<and>
         isComplete (fst (relaxEdges_edge Bi B u (st, f) (v, w))) = isComplete st) \<and>
      (\<not> (plus_weight du w < dv \<and> plus_weight du w < B) \<longrightarrow>
         fst (relaxEdges_edge Bi B u (st, f) (v, w)) = st) \<and>
      (plus_weight du w \<le> dv \<and> plus_weight du w < B \<and> \<not> isComplete st v \<and>
         (Bi = Infinity \<or> Bi \<le> plus_weight du w) \<longrightarrow>
         map_of (snd (relaxEdges_edge Bi B u (st, f) (v, w))) =
           (map_of f)(v \<mapsto> (case map_of f v of None \<Rightarrow> plus_weight du w
                                | Some d0 \<Rightarrow> min d0 (plus_weight du w)))) \<and>
      (\<not> (plus_weight du w \<le> dv \<and> plus_weight du w < B \<and> \<not> isComplete st v \<and>
         (Bi = Infinity \<or> Bi \<le> plus_weight du w)) \<longrightarrow>
         snd (relaxEdges_edge Bi B u (st, f) (v, w)) = f)"
      unfolding t fr by (auto simp: map_of_AdaptiveFrontier_insert fun_eq_iff)
  qed
  show ?thesis
    using a b c d e g relaxEdges_Nil[of g Bi B "(st, f)"] relaxEdges_Cons[of g u us Bi B st f]
    by (intro conjI)
qed

theorem relaxEdges_effect_witness:
  "getDist (tbl Infinity (- 1) False) 0 = Some (Fin 0) \<and>
   getDist (tbl Infinity (- 1) False) 1 = Some Infinity \<and>
   plus_weight (Fin 0) 4 < Infinity \<and>
   (\<exists>d'. getDist (fst (relaxEdges (edgeGraph 4) [0] Infinity Infinity (tbl Infinity (- 1) False, []))) 1 = Some d' \<and>
      d' \<le> plus_weight (Fin 0) 4) \<and>
   getDist (fst (relaxEdges_edge Infinity Infinity 0 (tbl Infinity (- 1) False, []) (1, 4)))
     = (getDist (tbl Infinity (- 1) False))(1 \<mapsto> plus_weight (Fin 0) 4) \<and>
   map_of (snd (relaxEdges_edge Infinity Infinity 0 (tbl Infinity (- 1) False, []) (1, 4)))
     = (map_of [])(1 \<mapsto> plus_weight (Fin 0) 4)"
proof -
  have h: "(0::int) \<in> set [0]" "(1, 4) \<in> set (neighborsOf (edgeGraph 4) 0)"
    "getDist (tbl Infinity (- 1) False) 0 = Some (Fin 0)"
    "getDist (tbl Infinity (- 1) False) 1 = Some Infinity"
    "plus_weight (Fin 0) 4 < Infinity" "\<not> isComplete (tbl Infinity (- 1) False) 1"
    by code_simp+
  note T = relaxEdges_effect[where g = "edgeGraph 4" and vertices = "[0]" and Bi = Infinity
        and B = Infinity and st = "tbl Infinity (- 1) False" and f = "[]" and u = 0 and v = 1
        and w = 4 and du = "Fin 0" and dv = Infinity and us = "[]"]
  have a: "\<exists>d'. getDist (fst (relaxEdges (edgeGraph 4) [0] Infinity Infinity (tbl Infinity (- 1) False, []))) 1 = Some d' \<and>
      d' \<le> plus_weight (Fin 0) 4"
    using T[THEN conjunct2, THEN conjunct2, THEN conjunct2, THEN conjunct1] h by blast
  have lt: "plus_weight (Fin 0) 4 < Infinity \<and> plus_weight (Fin 0) 4 < Infinity"
    "plus_weight (Fin 0) 4 \<le> Infinity \<and> plus_weight (Fin 0) 4 < Infinity \<and>
       \<not> isComplete (tbl Infinity (- 1) False) 1 \<and> (Infinity = Infinity \<or> Infinity \<le> plus_weight (Fin 0) 4)"
    using h by simp_all
  note E = T[THEN conjunct2, THEN conjunct2, THEN conjunct2, THEN conjunct2, THEN conjunct2,
      THEN conjunct2, THEN conjunct2, rule_format, OF conjI[OF h(3) h(4)]]
  have b: "getDist (fst (relaxEdges_edge Infinity Infinity 0 (tbl Infinity (- 1) False, []) (1, 4)))
     = (getDist (tbl Infinity (- 1) False))(1 \<mapsto> plus_weight (Fin 0) 4)"
    using E[THEN conjunct1, rule_format, OF lt(1)] by blast
  have c: "map_of (snd (relaxEdges_edge Infinity Infinity 0 (tbl Infinity (- 1) False, []) (1, 4)))
     = (map_of [])(1 \<mapsto> plus_weight (Fin 0) 4)"
    using E[THEN conjunct2, THEN conjunct2, THEN conjunct1, rule_format, OF lt(2)] by simp
  show ?thesis using h(3,4,5) a b c by (intro conjI)
qed

text \<open>
  The claim as stated fails when the pull boundary is \<open>Infinity\<close>: vertex 1 is inserted
  with the new distance 4, which is not at or above the boundary.
\<close>

theorem relaxEdges_effect_counterexample:
  "relaxEdges (edgeGraph 4) [0] Infinity Infinity (tbl Infinity (- 1) False, [])
     = (tbl (Fin 4) 0 False, [(1, Fin 4)]) \<and>
   \<not> isComplete (tbl Infinity (- 1) False) 1 \<and> \<not> Infinity \<le> Fin 4"
  by code_simp

section \<open>findPivots\<close>

lemma set_foldl_setAdd: "set (foldl (\<lambda>acc x. setAdd x acc) acc xs) = set acc \<union> set xs"
  by (induction xs arbitrary: acc) (auto simp: setAdd_def)

lemma distinct_foldl_setAdd:
  "distinct acc \<Longrightarrow> distinct (foldl (\<lambda>acc x. setAdd x acc) acc xs)"
  by (induction xs arbitrary: acc) (auto simp: setAdd_def)

lemma set_newSet [simp]: "set (newSet xs) = set xs"
  by (simp add: newSet_def set_foldl_setAdd)

lemma distinct_newSet [simp]: "distinct (newSet xs)"
  by (simp add: newSet_def distinct_foldl_setAdd)

lemma length_newSet: "length (newSet xs) \<le> length xs"
proof -
  have "length (newSet xs) = card (set xs)"
    using distinct_card[of "newSet xs"] by simp
  then show ?thesis by (simp add: card_length)
qed

lemma isComplete_findPivots_edge [simp]:
  "isComplete (fst (findPivots_edge B u acc e)) = isComplete (fst acc)"
  by (cases acc; cases e)
     (auto simp: findPivots_edge_def Let_def split: option.splits)

lemma isComplete_foldl_findPivots_edge [simp]:
  "isComplete (fst (foldl (findPivots_edge B u) acc es)) = isComplete (fst acc)"
  by (induction es arbitrary: acc) simp_all

lemma isComplete_findPivots_vertex [simp]:
  "isComplete (fst (findPivots_vertex g B acc u)) = isComplete (fst acc)"
  by (simp add: findPivots_vertex_def)

lemma isComplete_foldl_findPivots_vertex [simp]:
  "isComplete (fst (foldl (findPivots_vertex g B) acc us)) = isComplete (fst acc)"
  by (induction us arbitrary: acc) simp_all

lemma isComplete_findPivots_rounds [simp]:
  "isComplete (snd (snd (findPivots_rounds g k B S r layer W st))) = isComplete st"
proof (induction r arbitrary: layer W st)
  case 0
  show ?case by simp
next
  case (Suc r)
  obtain st' nextLayer W' where f: "foldl (findPivots_vertex g B) (st, [], W) layer = (st', nextLayer, W')"
    by (metis prod_cases3)
  have a: "isComplete st' = isComplete st"
    using isComplete_foldl_findPivots_vertex[of g B "(st, [], W)" layer] f by simp
  show ?case using f a Suc.IH[of nextLayer W' st'] by simp
qed

lemma findLargeTreeRoots_props:
  "set (findLargeTreeRoots st S W k) \<subseteq> {v \<in> set S. isComplete st v}"
  "distinct (findLargeTreeRoots st S W k)"
  "(\<exists>v \<in> set S. isComplete st v) \<Longrightarrow> findLargeTreeRoots st S W k \<noteq> []"
  "(\<forall>v \<in> set S. \<not> isComplete st v) \<Longrightarrow> findLargeTreeRoots st S W k = []"
proof -
  let ?roots = "newSet (filter (isComplete st) S)"
  obtain P where r: "findLargeTreeRoots st S W k =
      (if length (filter P ?roots) > 0 then filter P ?roots else take 1 ?roots)"
    by (simp add: findLargeTreeRoots_def Let_def)
  have sub: "set (findLargeTreeRoots st S W k) \<subseteq> set ?roots"
    unfolding r using set_take_subset[of 1 ?roots] by auto
  then show "set (findLargeTreeRoots st S W k) \<subseteq> {v \<in> set S. isComplete st v}" by auto
  show "distinct (findLargeTreeRoots st S W k)" unfolding r by simp
  show "findLargeTreeRoots st S W k \<noteq> []" if "\<exists>v \<in> set S. isComplete st v"
  proof -
    have "set ?roots \<noteq> {}" using that by auto
    then have "?roots \<noteq> []" by (metis set_empty)
    then have "take 1 ?roots \<noteq> []" by simp
    then show ?thesis unfolding r by auto
  qed
  show "findLargeTreeRoots st S W k = []" if "\<forall>v \<in> set S. \<not> isComplete st v"
  proof -
    have "set ?roots = {}" using that by auto
    then show ?thesis using sub by auto
  qed
qed

lemma length_findLargeTreeRoots: "length (findLargeTreeRoots st S W k) \<le> length S"
proof -
  have "length (findLargeTreeRoots st S W k) = card (set (findLargeTreeRoots st S W k))"
    using distinct_card[OF findLargeTreeRoots_props(2)[of st S W k]] by simp
  also have "\<dots> \<le> card (set S)"
    using findLargeTreeRoots_props(1)[of st S W k] by (intro card_mono) auto
  also have "\<dots> \<le> length S" by (rule card_length)
  finally show ?thesis .
qed

lemma findPivots_rounds_no_exit:
  assumes "\<forall>i. 1 \<le> i \<and> i \<le> r \<longrightarrow> length (snd (snd (afterRounds g B i (st, layer, W)))) \<le> k * length S"
  shows "findPivots_rounds g k B S r layer W st =
    (False, snd (snd (afterRounds g B r (st, layer, W))), fst (afterRounds g B r (st, layer, W)))"
  using assms
proof (induction r arbitrary: st layer W)
  case 0
  show ?case by simp
next
  case (Suc r)
  obtain st' nl W' where f: "findPivots_round g B (st, layer, W) = (st', nl, W')"
    by (metis prod_cases3)
  have "length (snd (snd (afterRounds g B 1 (st, layer, W)))) \<le> k * length S"
    using Suc.prems by (metis le_add1 order_refl plus_1_eq_Suc)
  then have a: "\<not> k * length S < length W'" using f by simp
  have "\<forall>i. 1 \<le> i \<and> i \<le> r \<longrightarrow> length (snd (snd (afterRounds g B i (st', nl, W')))) \<le> k * length S"
  proof (intro allI impI)
    fix i assume "1 \<le> i \<and> i \<le> r"
    then have "1 \<le> Suc i \<and> Suc i \<le> Suc r" by simp
    then have "length (snd (snd (afterRounds g B (Suc i) (st, layer, W)))) \<le> k * length S"
      using Suc.prems by blast
    then show "length (snd (snd (afterRounds g B i (st', nl, W')))) \<le> k * length S"
      using f by simp
  qed
  then have "findPivots_rounds g k B S r nl W' st' =
      (False, snd (snd (afterRounds g B r (st', nl, W'))), fst (afterRounds g B r (st', nl, W')))"
    by (rule Suc.IH)
  then show ?case using a f by (simp add: findPivots_round_def)
qed

lemma findPivots_rounds_exit:
  assumes "1 \<le> i" "i \<le> r"
    and "k * length S < length (snd (snd (afterRounds g B i (st, layer, W))))"
    and "\<forall>j. 1 \<le> j \<and> j < i \<longrightarrow> length (snd (snd (afterRounds g B j (st, layer, W)))) \<le> k * length S"
  shows "findPivots_rounds g k B S r layer W st =
    (True, snd (snd (afterRounds g B i (st, layer, W))), fst (afterRounds g B i (st, layer, W)))"
  using assms
proof (induction r arbitrary: i st layer W)
  case 0
  then show ?case by simp
next
  case (Suc r)
  obtain st' nl W' where f: "findPivots_round g B (st, layer, W) = (st', nl, W')"
    by (metis prod_cases3)
  show ?case
  proof (cases "i = 1")
    case True
    then have "k * length S < length W'" using Suc.prems(3) f by simp
    then show ?thesis using f True by (simp add: findPivots_round_def)
  next
    case False
    then obtain i' where i': "i = Suc i'" "1 \<le> i'" using Suc.prems(1) by (cases i) auto
    have "length (snd (snd (afterRounds g B 1 (st, layer, W)))) \<le> k * length S"
      using Suc.prems(4) i' by (metis One_nat_def le_refl less_Suc_eq_le)
    then have a: "\<not> k * length S < length W'" using f by simp
    have b: "k * length S < length (snd (snd (afterRounds g B i' (st', nl, W'))))"
      using Suc.prems(3) i' f by simp
    have c: "\<forall>j. 1 \<le> j \<and> j < i' \<longrightarrow> length (snd (snd (afterRounds g B j (st', nl, W')))) \<le> k * length S"
    proof (intro allI impI)
      fix j assume "1 \<le> j \<and> j < i'"
      then have "1 \<le> Suc j \<and> Suc j < i" using i' by simp
      then have "length (snd (snd (afterRounds g B (Suc j) (st, layer, W)))) \<le> k * length S"
        using Suc.prems(4) by blast
      then show "length (snd (snd (afterRounds g B j (st', nl, W')))) \<le> k * length S" using f by simp
    qed
    have "i' \<le> r" using Suc.prems(2) i' by simp
    then have "findPivots_rounds g k B S r nl W' st' =
      (True, snd (snd (afterRounds g B i' (st', nl, W'))), fst (afterRounds g B i' (st', nl, W')))"
      using Suc.IH[OF i'(2) _ b c] by simp
    then show ?thesis using a f i' by (simp add: findPivots_round_def)
  qed
qed

lemma treeSizeOf_update:
  "treeSizeOf (AList.update rt c ts) r = (if r = rt then c else treeSizeOf ts r)"
  by (simp add: treeSizeOf_def update_conv')

lemma treeSizeOf_Nil: "treeSizeOf [] r = 0"
  by (simp add: treeSizeOf_def)

lemma treeSizeOf_foldl:
  "treeSizeOf (foldl (\<lambda>treeSize v.
             case walk pr roots v [] of
               Some rt \<Rightarrow> if rt \<in> set roots
                          then AList.update rt (treeSizeOf treeSize rt + 1) treeSize
                          else treeSize
             | None \<Rightarrow> treeSize) ts W) r =
   treeSizeOf ts r + (if r \<in> set roots then length (filter (\<lambda>v. walk pr roots v [] = Some r) W) else 0)"
proof (induction W arbitrary: ts)
  case Nil
  show ?case by simp
next
  case (Cons v W)
  show ?case
    by (cases "walk pr roots v []") (auto simp: Cons.IH treeSizeOf_update)
qed

lemma findLargeTreeRoots_subtreeSize:
  "findLargeTreeRoots st S W k =
    (let roots = newSet (filter (isComplete st) S);
         pivots = filter (\<lambda>r. k \<le> subtreeSize st roots W r) roots
     in if pivots \<noteq> [] then pivots else take 1 roots)"
proof -
  let ?roots = "newSet (filter (isComplete st) S)"
  let ?ts = "foldl (\<lambda>treeSize v.
             case walk (predArr st) ?roots v [] of
               Some rt \<Rightarrow> if rt \<in> set ?roots
                          then AList.update rt (treeSizeOf treeSize rt + 1) treeSize
                          else treeSize
             | None \<Rightarrow> treeSize) [] W"
  have "filter (\<lambda>r. k \<le> treeSizeOf ?ts r) ?roots = filter (\<lambda>r. k \<le> subtreeSize st ?roots W r) ?roots"
    by (rule filter_cong) (simp_all add: treeSizeOf_foldl subtreeSize_def treeSizeOf_Nil)
  then show ?thesis by (simp add: findLargeTreeRoots_def Let_def)
qed

lemma hd_foldl_setAdd:
  "acc \<noteq> [] \<Longrightarrow> hd (foldl (\<lambda>acc x. setAdd x acc) acc xs) = hd acc"
  by (induction xs arbitrary: acc) (auto simp: setAdd_def)

lemma hd_newSet: "xs \<noteq> [] \<Longrightarrow> hd (newSet xs) = hd xs"
proof (cases xs)
  case Nil
  assume "xs \<noteq> []"
  then show ?thesis using Nil by simp
next
  case (Cons x rest)
  have "newSet xs = foldl (\<lambda>acc x. setAdd x acc) [x] rest"
    by (simp add: newSet_def Cons setAdd_def)
  then show ?thesis using hd_foldl_setAdd[of "[x]" rest] Cons by simp
qed

lemma take1_hd: "xs \<noteq> [] \<Longrightarrow> take 1 xs = [hd xs]"
  by (cases xs) simp_all

text \<open>
  Claim C9. For every call \<open>findPivots(B, S)\<close> on a frontier \<open>S\<close> with a complete vertex (in
  the program \<open>S\<close> is never empty and all its vertices are complete): the pivots are
  vertices of \<open>S\<close>, at most \<open>|S|\<close> and at least one. If \<open>|W| > k * |S|\<close> holds after some
  round \<open>i \<le> k\<close>, and \<open>i\<close> is the first such round, the call returns \<open>S\<close> as the pivots
  with the \<open>W\<close> and the tables of that round. If it holds after none of the \<open>k\<close> rounds, the
  call returns \<open>W\<close> and the tables after \<open>k\<close> rounds, and the pivots are the complete
  vertices of \<open>S\<close> whose subtree has at least \<open>k\<close> members of \<open>W\<close>, or, when there is no
  such vertex, exactly one vertex of \<open>S\<close> (its first complete one).
\<close>

theorem findPivots_pivots:
  assumes "\<exists>v \<in> set S. isComplete st v"
  shows "case findPivots g k B S st of
     ((pivots, W), st') \<Rightarrow>
       set pivots \<subseteq> set S \<and> length pivots \<le> length S \<and> 1 \<le> length pivots \<and>
       (\<forall>i. 1 \<le> i \<and> i \<le> k \<and>
            k * length S < length (snd (snd (afterRounds g B i (st, newSet S, newSet S)))) \<and>
            (\<forall>j. 1 \<le> j \<and> j < i \<longrightarrow>
                 length (snd (snd (afterRounds g B j (st, newSet S, newSet S)))) \<le> k * length S)
          \<longrightarrow> pivots = S \<and> W = snd (snd (afterRounds g B i (st, newSet S, newSet S))) \<and>
              st' = fst (afterRounds g B i (st, newSet S, newSet S))) \<and>
       ((\<forall>i. 1 \<le> i \<and> i \<le> k \<longrightarrow>
             length (snd (snd (afterRounds g B i (st, newSet S, newSet S)))) \<le> k * length S)
          \<longrightarrow> W = snd (snd (afterRounds g B k (st, newSet S, newSet S))) \<and>
              st' = fst (afterRounds g B k (st, newSet S, newSet S)) \<and>
              (if \<exists>r \<in> set S. isComplete st r \<and>
                    k \<le> subtreeSize st' (newSet (filter (isComplete st) S)) W r
               then pivots = filter (\<lambda>r. k \<le> subtreeSize st' (newSet (filter (isComplete st) S)) W r)
                               (newSet (filter (isComplete st) S))
               else pivots = [hd (filter (isComplete st) S)]))"
proof -
  let ?s0 = "(st, newSet S, newSet S)"
  let ?roots = "newSet (filter (isComplete st) S)"
  obtain early W st' where r: "findPivots_rounds g k B S k (newSet S) (newSet S) st = (early, W, st')"
    by (metis prod_cases3)
  have c: "isComplete st' = isComplete st"
    using isComplete_findPivots_rounds[of g k B S k "newSet S" "newSet S" st] r by simp
  define pivots where "pivots = (if early then S else findLargeTreeRoots st' S W k)"
  have fp: "findPivots g k B S st = ((pivots, W), st')"
    using r by (simp add: findPivots_def pivots_def)
  have ne: "filter (isComplete st) S \<noteq> []"
    using assms by (simp add: filter_empty_conv)
  then have rne: "?roots \<noteq> []" by (metis set_newSet set_empty)
  have flt: "findLargeTreeRoots st' S W k =
      (if filter (\<lambda>r. k \<le> subtreeSize st' ?roots W r) ?roots \<noteq> []
       then filter (\<lambda>r. k \<le> subtreeSize st' ?roots W r) ?roots else [hd (filter (isComplete st) S)])"
    using take1_hd[OF rne] hd_newSet[OF ne] by (simp add: findLargeTreeRoots_subtreeSize Let_def c)
  have p1: "set pivots \<subseteq> set S \<and> length pivots \<le> length S \<and> 1 \<le> length pivots"
  proof (cases early)
    case True
    have "S \<noteq> []" using assms by auto
    then show ?thesis using True by (cases S) (simp_all add: pivots_def)
  next
    case False
    have "set (findLargeTreeRoots st' S W k) \<subseteq> set S"
      using findLargeTreeRoots_props(1)[of st' S W k] by auto
    moreover have "findLargeTreeRoots st' S W k \<noteq> []"
      using findLargeTreeRoots_props(3)[of S st' W k] assms c by simp
    then have "1 \<le> length (findLargeTreeRoots st' S W k)"
      by (cases "findLargeTreeRoots st' S W k") simp_all
    ultimately show ?thesis
      using False length_findLargeTreeRoots[of st' S W k] by (simp add: pivots_def)
  qed
  have p2: "pivots = S \<and> W = snd (snd (afterRounds g B i ?s0)) \<and> st' = fst (afterRounds g B i ?s0)"
    if "1 \<le> i \<and> i \<le> k \<and> k * length S < length (snd (snd (afterRounds g B i ?s0))) \<and>
        (\<forall>j. 1 \<le> j \<and> j < i \<longrightarrow> length (snd (snd (afterRounds g B j ?s0))) \<le> k * length S)" for i
  proof -
    have "findPivots_rounds g k B S k (newSet S) (newSet S) st =
        (True, snd (snd (afterRounds g B i ?s0)), fst (afterRounds g B i ?s0))"
      using that by (intro findPivots_rounds_exit) blast+
    then show ?thesis using r by (simp add: pivots_def)
  qed
  have p3: "W = snd (snd (afterRounds g B k ?s0)) \<and> st' = fst (afterRounds g B k ?s0) \<and>
      (if \<exists>r \<in> set S. isComplete st r \<and> k \<le> subtreeSize st' ?roots W r
       then pivots = filter (\<lambda>r. k \<le> subtreeSize st' ?roots W r) ?roots
       else pivots = [hd (filter (isComplete st) S)])"
    if "\<forall>i. 1 \<le> i \<and> i \<le> k \<longrightarrow> length (snd (snd (afterRounds g B i ?s0))) \<le> k * length S"
  proof -
    have "findPivots_rounds g k B S k (newSet S) (newSet S) st =
        (False, snd (snd (afterRounds g B k ?s0)), fst (afterRounds g B k ?s0))"
      using that by (rule findPivots_rounds_no_exit)
    then have e: "\<not> early" "W = snd (snd (afterRounds g B k ?s0))" "st' = fst (afterRounds g B k ?s0)"
      using r by simp_all
    have "(filter (\<lambda>r. k \<le> subtreeSize st' ?roots W r) ?roots \<noteq> []) =
        (\<exists>r \<in> set S. isComplete st r \<and> k \<le> subtreeSize st' ?roots W r)"
      by (auto simp: filter_empty_conv)
    then show ?thesis using e flt by (simp add: pivots_def)
  qed
  show ?thesis unfolding fp prod.case using p1 p2 p3 by blast
qed


theorem findPivots_pivots_witness:
  "isComplete (tbl Infinity (- 1) False) 0 \<and>
   length (snd (snd (afterRounds (edgeGraph 4) Infinity 1 (tbl Infinity (- 1) False, newSet [0], newSet [0])))) = 2 \<and>
   length (snd (snd (afterRounds (edgeGraph 4) Infinity 2 (tbl Infinity (- 1) False, newSet [0], newSet [0])))) = 2 \<and>
   subtreeSize (tbl (Fin 4) 0 False) [0] [0, 1] 0 = 2 \<and>
   findPivots (edgeGraph 4) 2 Infinity [0] (tbl Infinity (- 1) False) = (([0], [0, 1]), tbl (Fin 4) 0 False) \<and>
   1 \<le> length (fst (fst (findPivots (edgeGraph 4) 2 Infinity [0] (tbl Infinity (- 1) False)))) \<and>
   snd (fst (findPivots (edgeGraph 4) 2 Infinity [0] (tbl Infinity (- 1) False)))
     = snd (snd (afterRounds (edgeGraph 4) Infinity 2 (tbl Infinity (- 1) False, newSet [0], newSet [0])))"
proof -
  let ?st = "tbl Infinity (- 1) False"
  let ?s0 = "(?st, newSet [0::int], newSet [0::int])"
  have c: "isComplete ?st 0" by code_simp
  then have h: "\<exists>v \<in> set [0]. isComplete ?st v" by simp
  have r1: "length (snd (snd (afterRounds (edgeGraph 4) Infinity 1 ?s0))) = 2" by code_simp
  have r2: "length (snd (snd (afterRounds (edgeGraph 4) Infinity 2 ?s0))) = 2" by code_simp
  have sz: "subtreeSize (tbl (Fin 4) 0 False) [0] [0, 1] 0 = 2" by code_simp
  have fp: "findPivots (edgeGraph 4) 2 Infinity [0] ?st = (([0], [0, 1]), tbl (Fin 4) 0 False)"
    by code_simp
  have all: "\<forall>i. 1 \<le> i \<and> i \<le> 2 \<longrightarrow>
      length (snd (snd (afterRounds (edgeGraph 4) Infinity i ?s0))) \<le> 2 * length [0::int]"
  proof (intro allI impI)
    fix i :: nat assume "1 \<le> i \<and> i \<le> 2"
    then have "i = 1 \<or> i = 2" by auto
    then show "length (snd (snd (afterRounds (edgeGraph 4) Infinity i ?s0))) \<le> 2 * length [0::int]"
      using r1 r2 by auto
  qed
  note T = findPivots_pivots[OF h, where g = "edgeGraph 4" and k = 2 and B = Infinity]
  have a: "1 \<le> length (fst (fst (findPivots (edgeGraph 4) 2 Infinity [0] ?st)))"
    using T by (simp add: split_beta)
  have b: "snd (fst (findPivots (edgeGraph 4) 2 Infinity [0] ?st))
      = snd (snd (afterRounds (edgeGraph 4) Infinity 2 ?s0))"
    using T all by (simp add: split_beta)
  show ?thesis using c r1 r2 sz fp a b by (intro conjI)
qed

section \<open>baseCase\<close>

lemma foldl_invariant:
  assumes "P acc" "\<And>a e. P a \<Longrightarrow> P (step a e)"
  shows "P (foldl step acc es)"
  using assms(1) by (induction es arbitrary: acc) (auto intro: assms(2))

lemma vertices_heap_insert:
  "fst ` set (heap (MinHeap_insert v d h)) = insert v (fst ` set (heap h))"
proof -
  have "set (heap (MinHeap_insert v d h)) = insert (v, d) (set (heap h))"
    using mset_heap_insert[of v d h] by (metis add_mset_add_single set_mset_add_mset_insert set_mset_mset)
  then show ?thesis by simp
qed

lemma vertices_heap_decreaseKey:
  assumes "positions_valid h"
  shows "fst ` set (heap (decreaseKey v d h)) = fst ` set (heap h)"
proof (cases "map_of (positions h) v")
  case None
  then show ?thesis by (simp add: decreaseKey_absent)
next
  case (Some idx)
  then have il: "idx < length (heap h)" and v: "fst (heap h ! idx) = v"
    using assms by (auto simp: positions_valid_def)
  have "mset (map fst (heap (decreaseKey v d h))) = mset (map fst (heap h))"
  proof -
    have "heap h ! idx \<in># mset (heap h)" using il by simp
    then have "mset (heap h) - {#heap h ! idx#} + {#heap h ! idx#} = mset (heap h)" by simp
    then have "image_mset fst (mset (heap h) - {#heap h ! idx#}) + {#v#} = image_mset fst (mset (heap h))"
      using v by (metis image_mset_single image_mset_union)
    then show ?thesis
      using mset_heap_decreaseKey[OF assms Some, of d] by simp
  qed
  then show ?thesis by (metis mset_eq_setD set_map)
qed

lemma vertices_heap_extractMin: "fst ` set (heap (snd (extractMin h))) \<subseteq> fst ` set (heap h)"
  using set_heap_extractMin[of h] by blast

lemma improved_decreases:
  assumes "improved B st a x" "dist_decreases a b"
  shows "improved B st b x"
proof -
  from assms(1) obtain d d' where d: "getDist st x = Some d" "getDist a x = Some d'" "d' < d" "d' < B"
    by (auto simp: improved_def)
  from assms(2) have "getDist b x = getDist a x \<or> (\<exists>e e'. getDist a x = Some e \<and> getDist b x = Some e' \<and> e' < e)"
    by (simp add: dist_decreases_def)
  then show ?thesis using d by (auto simp: improved_def intro: less_trans)
qed

lemma isComplete_baseCase_edge [simp]:
  "isComplete (fst (baseCase_edge B u acc e)) = isComplete (fst acc)"
  by (cases acc; cases e)
     (auto simp: baseCase_edge_def Let_def split: option.splits)

lemma baseCase_inv_edge:
  assumes "baseCase_inv B s0 st U (fst (snd acc)) (fst acc)"
  shows "baseCase_inv B s0 st U (fst (snd (baseCase_edge B u acc e))) (fst (baseCase_edge B u acc e))"
proof -
  obtain cur h inHeap where acc: "acc = (cur, h, inHeap)" by (metis prod_cases3)
  obtain v w where e: "e = (v, w)" by (cases e) auto
  have inv: "positions_valid h" "dist_decreases st cur"
    "\<And>x. x \<in> set U \<union> fst ` set (heap h) \<Longrightarrow> x = s0 \<or> improved B st cur x"
    "\<And>x. isComplete cur x = (isComplete st x \<or> x \<in> set U)"
    using assms acc by (auto simp: baseCase_inv_def)
  show ?thesis
  proof (cases "\<exists>du dv. getDist cur u = Some du \<and> getDist cur v = Some dv \<and>
        plus_weight du w < dv \<and> plus_weight du w < B")
    case False
    then have "baseCase_edge B u acc e = acc"
      using acc e by (auto simp: baseCase_edge_def Let_def split: option.splits)
    then show ?thesis using assms by simp
  next
    case True
    then obtain du dv where d: "getDist cur u = Some du" "getDist cur v = Some dv"
        "plus_weight du w < dv" "plus_weight du w < B" by blast
    let ?nd = "plus_weight du w"
    let ?cur' = "setPred v u (setDist v ?nd cur)"
    let ?h' = "if v \<in> set inHeap then decreaseKey v ?nd h else MinHeap_insert v ?nd h"
    have r: "fst (baseCase_edge B u acc e) = ?cur'" "fst (snd (baseCase_edge B u acc e)) = ?h'"
      using acc e d by (auto simp: baseCase_edge_def Let_def)
    have dc: "dist_decreases cur ?cur'" using d by (simp add: dist_decreases_setDist)
    have a: "positions_valid ?h'"
      using inv(1) by (simp add: positions_valid_decreaseKey positions_valid_insert)
    have b: "dist_decreases st ?cur'" using inv(2) dc dist_decreases_trans by blast
    have vs: "fst ` set (heap ?h') \<subseteq> insert v (fst ` set (heap h))"
      using inv(1) by (auto simp: vertices_heap_decreaseKey vertices_heap_insert)
    have iv: "improved B st ?cur' v"
    proof -
      have "getDist st v = getDist cur v \<or> (\<exists>e e'. getDist st v = Some e \<and> getDist cur v = Some e' \<and> e' < e)"
        using inv(2) unfolding dist_decreases_def by metis
      then obtain d0 where "getDist st v = Some d0" "dv \<le> d0" using d(2) by auto
      then show ?thesis using d(3,4) by (auto simp: improved_def)
    qed
    have c: "x = s0 \<or> improved B st ?cur' x" if "x \<in> set U \<union> fst ` set (heap ?h')" for x
    proof (cases "x = v")
      case True then show ?thesis using iv by simp
    next
      case False
      then have "x \<in> set U \<union> fst ` set (heap h)" using that vs by auto
      then have "x = s0 \<or> improved B st cur x" by (rule inv(3))
      then show ?thesis using improved_decreases[OF _ dc] by blast
    qed
    have e: "\<And>x. isComplete ?cur' x = (isComplete st x \<or> x \<in> set U)" using inv(4) by simp
    show ?thesis unfolding r baseCase_inv_def using a b c e by blast
  qed
qed

lemma baseCase_loop_inv:
  assumes "baseCase_loop g B (h, inHeap, U, cur) = Some (U', st')"
    and "baseCase_inv B s0 st U h cur"
  shows "dist_decreases st st' \<and> (\<forall>x \<in> set U'. x = s0 \<or> improved B st st' x) \<and>
         (\<forall>x. isComplete st' x = (isComplete st x \<or> x \<in> set U'))"
proof (rule baseCase_loop_rule[OF assms(1),
      where I = "\<lambda>(h, inHeap, U, cur). baseCase_inv B s0 st U h cur"
        and Q = "\<lambda>(U', st'). dist_decreases st st' \<and> (\<forall>x \<in> set U'. x = s0 \<or> improved B st st' x) \<and>
         (\<forall>x. isComplete st' x = (isComplete st x \<or> x \<in> set U'))", simplified])
  show "baseCase_inv B s0 st U h cur" by (rule assms(2))
next
  fix h inHeap U cur
  assume "baseCase_inv B s0 st U h cur"
  then show "dist_decreases st cur \<and> (\<forall>x\<in>set U. x = s0 \<or> improved B st cur x) \<and>
       (\<forall>x. isComplete cur x = (isComplete st x \<or> x \<in> set U))"
    by (auto simp: baseCase_inv_def)
next
  fix h inHeap U cur u h1 st2 h2 inHeap2
  assume inv: "baseCase_inv B s0 st U h cur" and ne: "\<not> isEmpty h"
    and ex: "extractMin h = (Some u, h1)"
    and f: "foldl (baseCase_edge B u) (setComplete u cur, h1, removeAll u inHeap) (neighborsOf g u)
        = (st2, h2, inHeap2)"
  have hne: "heap h \<noteq> []" using ne by (simp add: isEmpty_def)
  have u: "u = fst (heap h ! 0)" using extractMin_nonempty[OF hne] ex by simp
  then have uin: "u \<in> fst ` set (heap h)" using hne by (metis image_eqI length_greater_0_conv nth_mem)
  have h1: "h1 = snd (extractMin h)" using ex by simp
  have start: "baseCase_inv B s0 st (U @ [u]) h1 (setComplete u cur)"
    unfolding baseCase_inv_def
  proof (intro conjI ballI allI)
    show "positions_valid h1" using inv h1 by (simp add: baseCase_inv_def positions_valid_extractMin)
    show "dist_decreases st (setComplete u cur)" using inv by (simp add: baseCase_inv_def)
    show "x = s0 \<or> improved B st (setComplete u cur) x" if "x \<in> set (U @ [u]) \<union> fst ` set (heap h1)" for x
    proof -
      have "x \<in> set U \<union> fst ` set (heap h)"
        using that uin vertices_heap_extractMin[of h] h1 by auto
      then have "x = s0 \<or> improved B st cur x" using inv by (auto simp: baseCase_inv_def)
      then show ?thesis by (auto simp: improved_def)
    qed
    show "isComplete (setComplete u cur) x = (isComplete st x \<or> x \<in> set (U @ [u]))" for x
      using inv by (auto simp: baseCase_inv_def)
  qed
  have "baseCase_inv B s0 st (U @ [u])
      (fst (snd (foldl (baseCase_edge B u) (setComplete u cur, h1, removeAll u inHeap) (neighborsOf g u))))
      (fst (foldl (baseCase_edge B u) (setComplete u cur, h1, removeAll u inHeap) (neighborsOf g u)))"
    by (rule foldl_invariant[where P = "\<lambda>a. baseCase_inv B s0 st (U @ [u]) (fst (snd a)) (fst a)"])
       (use start in \<open>auto intro: baseCase_inv_edge\<close>)
  then show "baseCase_inv B s0 st (U @ [u]) h2 st2" using f by simp
qed

text \<open>
  Claim C10. \<open>baseCase\<close> on a seed set of two or more vertices does what it does on the
  first of them alone. In particular a vertex in the returned \<open>U\<close> is the first seed or
  had its distance strictly lowered, below \<open>B\<close>, by relaxation; and the completion flags
  it leaves are the ones it found and those of the vertices of \<open>U\<close>.
\<close>

theorem baseCase_seed:
  "baseCase g B (s0 # rest) st = baseCase g B [s0] st \<and>
   (baseCase g B (s0 # rest) st = Some (Inr ((B', U), st')) \<longrightarrow>
      B' = B \<and>
      (\<forall>x \<in> set U. x = s0 \<or>
         (\<exists>d d'. getDist st x = Some d \<and> getDist st' x = Some d' \<and> d' < d \<and> d' < B)) \<and>
      (\<forall>x. isComplete st' x = (isComplete st x \<or> x \<in> set U)))"
proof (intro conjI impI)
  show "baseCase g B (s0 # rest) st = baseCase g B [s0] st" by (simp add: baseCase_def)
next
  assume a: "baseCase g B (s0 # rest) st = Some (Inr ((B', U), st'))"
  have "B' = B \<and> (\<forall>x \<in> set U. x = s0 \<or> improved B st st' x) \<and>
      (\<forall>x. isComplete st' x = (isComplete st x \<or> x \<in> set U))"
  proof (cases "getDist st s0")
    case None
    then show ?thesis using a by (simp add: baseCase_def)
  next
    case (Some d)
    then have l: "baseCase_loop g B (MinHeap_insert s0 d newMinHeap, [s0], [], st) = Some (U, st')"
      and b: "B' = B"
      using a by (auto simp: baseCase_def split: option.splits)
    have "baseCase_inv B s0 st [] (MinHeap_insert s0 d newMinHeap) st"
      using heap_inv_insert[OF heap_inv_new, of s0 d]
      by (simp add: baseCase_inv_def heap_inv_def vertices_heap_insert newMinHeap_def)
    then show ?thesis using baseCase_loop_inv[OF l] b by simp
  qed
  then show "B' = B" and "\<forall>x \<in> set U. x = s0 \<or>
         (\<exists>d d'. getDist st x = Some d \<and> getDist st' x = Some d' \<and> d' < d \<and> d' < B)"
    and "\<forall>x. isComplete st' x = (isComplete st x \<or> x \<in> set U)"
    by (auto simp: improved_def)
qed

theorem baseCase_seed_witness:
  "baseCase (edgeGraph 4) Infinity [0, 1] (tbl Infinity (- 1) False)
     = Some (Inr ((Infinity, [0, 1]), tbl (Fin 4) 0 True)) \<and>
   (\<exists>d d'. getDist (tbl Infinity (- 1) False) 1 = Some d \<and>
      getDist (tbl (Fin 4) 0 True) 1 = Some d' \<and> d' < d \<and> d' < Infinity)"
proof -
  have a: "baseCase (edgeGraph 4) Infinity [0, 1] (tbl Infinity (- 1) False)
     = Some (Inr ((Infinity, [0, 1]), tbl (Fin 4) 0 True))"
    by code_simp
  show ?thesis
    using a baseCase_seed[where g = "edgeGraph 4" and B = Infinity and ?s0.0 = 0 and rest = "[1]"
        and st = "tbl Infinity (- 1) False" and B' = Infinity and U = "[0, 1]"
        and st' = "tbl (Fin 4) 0 True"]
    by auto
qed

section \<open>solve on a graph of two nodes\<close>

lemma edgeGraph_eq:
  "edgeGraph w = \<lparr>nodes = [0, 1], edges = [(0, 1, w)], adjacencyList = [(0, [(1, w)]), (1, [])]\<rparr>"
  by (simp add: edgeGraph_def toGraph_def addEdge_def addNode_def newGraphClass_def Let_def)

lemma neighborsOf_edgeGraph:
  "neighborsOf (edgeGraph w) u = (if u = 0 then [(1, w)] else [])"
  by (simp add: edgeGraph_eq neighborsOf_def)

lemma st0: "setComplete 0 (setDist 0 (Fin 0) (newTables 2)) = tbl Infinity (- 1) False"
  by (simp add: tbl_def setComplete_def setDist_def newTables_def upt_rec numeral_2_eq_2)

lemma getDist_tbl: "getDist (tbl d1 p1 c1) x = (if x = 0 then Some (Fin 0) else if x = 1 then Some d1 else None)"
  by (simp add: tbl_def getDist_def)

lemma isComplete_tbl: "isComplete (tbl d1 p1 c1) x = (x = 0 \<or> (x = 1 \<and> c1))"
  by (auto simp: tbl_def isComplete_def)

lemma fp: "findPivots (edgeGraph w) 2 Infinity [0] (tbl Infinity (- 1) False) = (([0], [0, 1]), tbl (Fin w) 0 False)"
  apply (simp add: findPivots_def numeral_2_eq_2 newSet_def setAdd_def findPivots_vertex_def isComplete_tbl neighborsOf_edgeGraph
     findPivots_edge_def getDist_tbl Let_def)
  apply (simp add: tbl_def setPred_def setDist_def findLargeTreeRoots_def isComplete_def newSet_def setAdd_def Let_def walk.simps treeSizeOf_def)
  done


lemma heap1: "MinHeap_insert v d newMinHeap = \<lparr>heap = [(v, d)], positions = [(v, 0)]\<rparr>"
  by (simp add: MinHeap_insert_def newMinHeap_def Let_def bubbleUp.simps)

lemma ex1: "extractMin \<lparr>heap = [(v, d)], positions = [(v, 0)]\<rparr> = (Some v, \<lparr>heap = [], positions = []\<rparr>)"
  by (simp add: extractMin_def Let_def)

lemma bc0: "baseCase (edgeGraph w) Infinity [0] (tbl (Fin w) 0 False) = Some (Inr ((Infinity, [0]), tbl (Fin w) 0 False))"
  apply (simp add: baseCase_def getDist_tbl heap1)
  apply (subst baseCase_loop.simps)
  apply (simp add: isEmpty_def ex1 neighborsOf_edgeGraph baseCase_edge_def getDist_tbl Let_def)
  apply (subst baseCase_loop.simps)
  apply (simp add: isEmpty_def tbl_def setComplete_def)
  done

lemma bc1: "baseCase (edgeGraph w) Infinity [1] (tbl (Fin w) 0 False) = Some (Inr ((Infinity, [1]), tbl (Fin w) 0 True))"
  apply (simp add: baseCase_def getDist_tbl heap1)
  apply (subst baseCase_loop.simps)
  apply (simp add: isEmpty_def ex1 neighborsOf_edgeGraph)
  apply (subst baseCase_loop.simps)
  apply (simp add: isEmpty_def tbl_def setComplete_def)
  done

lemma re0: "relaxEdges (edgeGraph w) [0] Infinity Infinity (tbl (Fin w) 0 False, []) = (tbl (Fin w) 0 False, [(1, Fin w)])"
  apply (simp add: relaxEdges_def relaxEdges_vertex_def neighborsOf_edgeGraph relaxEdges_edge_def Let_def AdaptiveFrontier_insert_def)
  apply (simp add: tbl_def setComplete_def getDist_def isComplete_def Let_def AdaptiveFrontier_insert_def)
  done

lemma re1: "relaxEdges (edgeGraph w) [1] Infinity Infinity (tbl (Fin w) 0 True, []) = (tbl (Fin w) 0 True, [])"
  apply (simp add: relaxEdges_def relaxEdges_vertex_def neighborsOf_edgeGraph)
  apply (simp add: tbl_def setComplete_def)
  done

lemma pull1: "pull (Suc 0) [(v, d)] = (([v], Infinity), [])"
  by (simp add: pull_def Let_def)

lemma distArr_tbl:
  "map_of (distArr (tbl d p c)) x = (if x = 0 then Some (Fin 0) else if x = 1 then Some d else None)"
  by (simp add: tbl_def)

lemma loop3: "BMSSP_loop rec g cap pc B (U, B', [], st) = Some (Inr (U, B', st))"
  by (subst BMSSP_loop.simps) (simp add: hasElements_def)

lemma loop2: "BMSSP_loop (baseCase (edgeGraph w)) (edgeGraph w) 8 (Suc 0) Infinity
    ([0], Infinity, [(1, Fin w)], tbl (Fin w) 0 False) = Some (Inr ([0, 1], Infinity, tbl (Fin w) 0 True))"
  by (subst BMSSP_loop.simps) (simp add: hasElements_def pull1 bc1 re1 loop3)

lemma loop1: "BMSSP_loop (baseCase (edgeGraph w)) (edgeGraph w) 8 (Suc 0) Infinity
    ([], Infinity, [(0, Fin 0)], tbl (Fin w) 0 False) = Some (Inr ([0, 1], Infinity, tbl (Fin w) 0 True))"
  by (subst BMSSP_loop.simps) (simp add: hasElements_def pull1 bc0 re0 loop2)

lemma bmssp: "BMSSP (edgeGraph w) 2 2 1 Infinity [0] (tbl Infinity (- 1) False) = Some (Inr ((Infinity, [0, 1]), tbl (Fin w) 0 True))"
  by (simp add: fp distArr_tbl loop1 mergeW_def getDist_tbl)

lemma solve_with_edgeGraph:
  "solve_with 2 2 (Level 1) (edgeGraph w) 0 None = Some (Inr
    \<lparr>distances = [(0, Some (Fin 0)), (1, Some (Fin w))],
     predecessors = [(0, Some (- 1)), (1, Some 0)], shortestPath = []\<rparr>)"
proof -
  have n: "length (nodes (edgeGraph w)) = 2" by (simp add: edgeGraph_eq)
  have u: "[0..<2] = [0, Suc 0]" by (simp add: upt_rec numeral_2_eq_2)
  show ?thesis
    unfolding solve_with_def Let_def n st0 level.case bmssp u
    by (simp add: getDist_tbl pathTo_def) (simp add: tbl_def)
qed

lemma k_of_2: "k_of 2 = 2"
proof -
  have "nat \<lfloor>real 2 powr (real 1 / real 3)\<rfloor> = 1"
    by (rule floor_root) (simp_all add: power3_eq_cube)
  then show ?thesis by (simp add: k_of_def)
qed

lemma t_of_2: "t_of 2 = 2"
proof -
  have "nat \<lfloor>real 2 powr (real 2 / real 3)\<rfloor> = 1"
    by (rule floor_root) (simp_all add: power3_eq_cube)
  then show ?thesis by (simp add: t_of_def)
qed

lemma levels_of_2: "levels_of 2 = Level 1"
proof -
  have "(2::real) \<le> exp 2" using exp_ge_add_one_self[of "2::real"] by simp
  then have "ln (2::real) \<le> ln (exp 2)" by (subst ln_le_cancel_iff) auto
  then have "ln (2::real) \<le> 2" by simp
  moreover have "0 < ln (2::real)" by simp
  ultimately have "\<lceil>ln (2::real) / 2\<rceil> = 1" by (simp add: ceiling_eq_iff)
  then show ?thesis by (simp add: levels_of_def t_of_2)
qed

lemma solve_two_nodes:
  "length (nodes g) = 2 \<Longrightarrow> solve g source destination = solve_with 2 2 (Level 1) g source destination"
  by (simp only: solve_def Let_def k_of_2 t_of_2 levels_of_2)

section \<open>solve without validation\<close>

subsection \<open>Writes to the predecessor table\<close>

lemma relaxed_findPivots_edge: "relaxed (fst acc) (fst (findPivots_edge B u acc e))"
  by (cases acc; cases e)
     (auto simp: findPivots_edge_def Let_def relaxed_def dist_decreases_setDist split: option.splits)

lemma relaxed_findPivots_vertex: "relaxed (fst acc) (fst (findPivots_vertex g B acc u))"
  unfolding findPivots_vertex_def
  using relaxed_foldl[where step = "findPivots_edge B u" and acc = acc
      and es = "neighborsOf g u", OF relaxed_findPivots_edge]
  by simp

lemma relaxed_findPivots_rounds:
  "relaxed st (snd (snd (findPivots_rounds g k B S r layer W st)))"
proof (induction r arbitrary: layer W st)
  case 0
  show ?case by simp
next
  case (Suc r)
  obtain st' nextLayer W' where f: "foldl (findPivots_vertex g B) (st, [], W) layer = (st', nextLayer, W')"
    by (metis prod_cases3)
  have a: "relaxed st st'"
    using relaxed_foldl[where step = "findPivots_vertex g B" and acc = "(st, [], W)"
        and es = layer, OF relaxed_findPivots_vertex] f by simp
  show ?case
  proof (cases "k * length S < length W'")
    case True
    then show ?thesis using f a by simp
  next
    case False
    then have "findPivots_rounds g k B S (Suc r) layer W st = findPivots_rounds g k B S r nextLayer W' st'"
      using f by simp
    moreover have "relaxed st' (snd (snd (findPivots_rounds g k B S r nextLayer W' st')))"
      by (rule Suc.IH)
    ultimately show ?thesis using a relaxed_trans by metis
  qed
qed

lemma relaxed_findPivots: "relaxed st (snd (findPivots g k B S st))"
  using relaxed_findPivots_rounds[of st g k B S k "newSet S" "newSet S"]
  by (auto simp: findPivots_def split: prod.splits)

lemma relaxed_baseCase_edge: "relaxed (fst acc) (fst (baseCase_edge B u acc e))"
  by (cases acc; cases e)
     (auto simp: baseCase_edge_def Let_def relaxed_def dist_decreases_setDist split: option.splits)

lemma relaxed_baseCase_loop:
  assumes "baseCase_loop g B (h, inHeap, U, st) = Some (U', st')" "relaxed st0 st"
  shows "relaxed st0 st'"
proof (rule baseCase_loop_rule[OF assms(1), where I = "\<lambda>(h, inHeap, U, st). relaxed st0 st"
      and Q = "\<lambda>(U, st). relaxed st0 st", simplified])
  show "relaxed st0 st" by (rule assms(2))
next
  fix h inHeap U st u h1 st2 h2 inHeap2
  assume a: "relaxed st0 st"
    and f: "foldl (baseCase_edge B u) (setComplete u st, h1, removeAll u inHeap) (neighborsOf g u)
        = (st2, h2, inHeap2)"
  have "relaxed (setComplete u st) st2"
    using relaxed_foldl[where step = "baseCase_edge B u"
        and acc = "(setComplete u st, h1, removeAll u inHeap)" and es = "neighborsOf g u",
        OF relaxed_baseCase_edge] f by simp
  then have "relaxed st st2" using relaxed_setComplete relaxed_trans by blast
  then show "relaxed st0 st2" using a relaxed_trans by blast
qed

lemma relaxed_baseCase:
  assumes "baseCase g B S st = Some (Inr (r, st'))"
  shows "relaxed st st'"
proof (cases S)
  case Nil
  then show ?thesis using assms by (simp add: baseCase_def)
next
  case (Cons source rest)
  show ?thesis
  proof (cases "getDist st source")
    case None
    then show ?thesis using assms Cons by (simp add: baseCase_def)
  next
    case (Some d)
    then obtain U where "baseCase_loop g B (MinHeap_insert source d newMinHeap, [source], [], st) = Some (U, st')"
      using assms Cons by (auto simp: baseCase_def split: option.splits)
    then show ?thesis using relaxed_baseCase_loop by simp
  qed
qed

lemma relaxed_BMSSP_loop:
  assumes "BMSSP_loop rec g cap pullCount B (U, B_prime, frontier, st) = Some (Inr (U', B'', st'))"
    and "relaxed st0 st"
    and rec: "\<And>Bi Si st r st'. rec Bi Si st = Some (Inr (r, st')) \<Longrightarrow> relaxed st st'"
  shows "relaxed st0 st'"
proof (rule BMSSP_loop_rule[OF assms(1), where I = "\<lambda>(U, B_prime, frontier, st). relaxed st0 st"
      and Q = "\<lambda>(U, B_prime, st). relaxed st0 st", simplified])
  show "relaxed st0 st" by (rule assms(2))
next
  fix st Si Bi frontier1 subB subU st1 st2 frontier2
  assume a: "relaxed st0 st"
    and r: "rec Bi Si st = Some (Inr ((subB, subU), st1))"
    and re: "relaxEdges g subU Bi B (st1, frontier1) = (st2, frontier2)"
  have "relaxed st st1" using rec r by blast
  moreover have "relaxed st1 st2"
    using relaxed_relaxEdges[of "(st1, frontier1)" g subU Bi B] re by simp
  ultimately show "relaxed st0 st2" using a relaxed_trans by blast
qed

lemma relaxed_BMSSP:
  "BMSSP g k t l B S st = Some (Inr (r, st')) \<Longrightarrow> relaxed st st'"
proof (induction l arbitrary: B S st r st')
  case 0
  then show ?case using relaxed_baseCase by simp
next
  case (Suc l)
  obtain pivots W st1 where fp: "findPivots g k B S st = ((pivots, W), st1)"
    by (metis prod.collapse)
  have a: "relaxed st st1" using relaxed_findPivots[of st g k B S] fp by simp
  from Suc.prems fp obtain frontier U B_prime where
    l: "BMSSP_loop (BMSSP g k t l) g (k * 2 ^ (Suc l * t)) (2 ^ (l * t)) B ([], B, frontier, st1)
        = Some (Inr (U, B_prime, st'))"
    by (auto split: option.splits sum.splits)
  have "relaxed st1 st'"
    using relaxed_BMSSP_loop[OF l relaxed_refl] Suc.IH by blast
  then show ?case using a relaxed_trans by blast
qed

lemma relaxed_BMSSP_NegInfinity:
  "BMSSP_NegInfinity g k B S st = Some (Inr (r, st')) \<Longrightarrow> relaxed st st'"
  using relaxed_findPivots[of st g k B S]
  by (auto simp: BMSSP_NegInfinity_def split: prod.splits option.splits)

text \<open>An index with no \<open>dist\<close> entry keeps none, and its \<open>pred\<close> entry is not written.\<close>

lemma relaxed_undefined:
  assumes "relaxed st st'" "getDist st v = None"
  shows "getDist st' v = None" "map_of (predArr st') v = map_of (predArr st) v"
proof -
  have "getDist st' v = getDist st v \<or> (\<exists>d d'. getDist st v = Some d \<and> getDist st' v = Some d' \<and> d' < d)"
    using assms(1) by (simp add: relaxed_def dist_decreases_def)
  then show "getDist st' v = None" using assms(2) by auto
  have "map_of (predArr st') v \<noteq> map_of (predArr st) v \<longrightarrow>
      (\<exists>d d'. getDist st v = Some d \<and> getDist st' v = Some d' \<and> d' < d)"
    using assms(1) by (simp add: relaxed_def)
  then show "map_of (predArr st') v = map_of (predArr st) v" using assms(2) by auto
qed


subsection \<open>The tables at the start of a solve\<close>

lemma map_of_upt:
  "map_of (map (\<lambda>i. (int i, c)) [0..<n]) v = (if 0 \<le> v \<and> v < int n then Some c else None)"
  by (induction n) (auto simp: map_add_def split: option.splits)

lemma getDist_newTables:
  "getDist (newTables n) v = (if 0 \<le> v \<and> v < int n then Some Infinity else None)"
  by (simp add: getDist_def newTables_def map_of_upt)

lemma predArr_newTables:
  "map_of (predArr (newTables n)) v = (if 0 \<le> v \<and> v < int n then Some (- 1) else None)"
  by (simp add: newTables_def map_of_upt)

lemma isComplete_newTables: "\<not> isComplete (newTables n) v"
  by (simp add: isComplete_def newTables_def map_of_upt)

subsection \<open>A destination that is not a vertex\<close>

lemma buildPath_minus1: "buildPath pr (- 1) path = Some path"
  by (subst buildPath.simps) simp

lemma buildPath_undefined: "d \<noteq> - 1 \<Longrightarrow> map_of pr d = None \<Longrightarrow> buildPath pr d path = None"
  by (subst buildPath.simps) simp

lemma pathTo_undefined:
  assumes "getDist st d = None" "map_of (predArr st) d = None"
  shows "pathTo st (Some d) = (if d = - 1 then Some (Inl TypeError) else None)"
  using assms by (cases "d = - 1") (simp_all add: pathTo_def buildPath_minus1 buildPath_undefined)

lemma solve_with_destination:
  assumes "d < 0 \<or> int (length (nodes g)) \<le> d" "d \<noteq> source"
  shows "solve_with k t levels g source (Some d) =
    (case solve_with k t levels g source None of
       None \<Rightarrow> None
     | Some (Inl e) \<Rightarrow> Some (Inl e)
     | Some (Inr r) \<Rightarrow> if d = - 1 then Some (Inl TypeError) else None)"
proof -
  let ?n = "length (nodes g)"
  let ?st0 = "setComplete source (setDist source (Fin 0) (newTables ?n))"
  let ?R = "case levels of NegInfinity \<Rightarrow> BMSSP_NegInfinity g k Infinity [source] ?st0
            | Level l \<Rightarrow> BMSSP g k t l Infinity [source] ?st0"
  have d0: "getDist ?st0 d = None" "map_of (predArr ?st0) d = None"
    using assms by (auto simp: getDist_newTables predArr_newTables)
  show ?thesis
  proof (cases ?R)
    case None
    then show ?thesis by (simp add: solve_with_def Let_def)
  next
    case (Some x)
    show ?thesis
    proof (cases x)
      case (Inl e)
      then show ?thesis using Some by (simp add: solve_with_def Let_def)
    next
      case (Inr y)
      obtain r st where y: "y = (r, st)" by (cases y) auto
      have "relaxed ?st0 st"
        using Some Inr y relaxed_BMSSP[of g k t _ Infinity "[source]" ?st0 r st]
          relaxed_BMSSP_NegInfinity[of g k Infinity "[source]" ?st0 r st]
        by (cases levels) simp_all
      then have "getDist st d = None" "map_of (predArr st) d = None"
        using relaxed_undefined[of ?st0 st d] d0 by simp_all
      then have p: "pathTo st (Some d) = (if d = - 1 then Some (Inl TypeError) else None)"
        by (rule pathTo_undefined)
      have q: "pathTo st None = Some (Inr [])" by (simp add: pathTo_def)
      show ?thesis using Some Inr y p q by (simp add: solve_with_def Let_def)
    qed
  qed
qed


subsection \<open>An edge to an index with no entry\<close>

lemma findPivots_edge_undefined:
  "getDist st u = None \<or> getDist st v = None \<Longrightarrow>
   findPivots_edge B u (st, nextLayer, W) (v, w) = (st, nextLayer, W)"
  by (auto simp: findPivots_edge_def split: option.splits)

lemma baseCase_edge_undefined:
  "getDist st u = None \<or> getDist st v = None \<Longrightarrow>
   baseCase_edge B u (st, h, inHeap) (v, w) = (st, h, inHeap)"
  by (auto simp: baseCase_edge_def split: option.splits)

subsection \<open>A source with no outgoing edge\<close>

lemma setComplete_triv: "isComplete st v \<Longrightarrow> setComplete v st = st"
  by (simp add: isComplete_def setComplete_def update_triv)

lemma findPivots_layer_idle:
  assumes "\<forall>u \<in> set layer. isComplete st u \<longrightarrow> neighborsOf g u = []"
  shows "foldl (findPivots_vertex g B) (st, nl, W) layer = (st, nl, W)"
  using assms by (induction layer) (auto simp: findPivots_vertex_def)

lemma findPivots_rounds_idle:
  assumes "\<forall>u \<in> set layer. isComplete st u \<longrightarrow> neighborsOf g u = []" "length W \<le> k * length S"
  shows "findPivots_rounds g k B S r layer W st = (False, W, st)"
  using assms(1)
proof (induction r arbitrary: layer)
  case 0
  show ?case by simp
next
  case (Suc r)
  have "foldl (findPivots_vertex g B) (st, [], W) layer = (st, [], W)"
    using Suc.prems by (rule findPivots_layer_idle)
  moreover have "findPivots_rounds g k B S r [] W st = (False, W, st)"
    by (rule Suc.IH) simp
  ultimately show ?case using assms(2) by simp
qed

lemma findPivots_isolated:
  assumes "neighborsOf g s = []" "isComplete st s" "1 \<le> k"
  shows "findPivots g k B [s] st = (([s], [s]), st)"
proof -
  have n: "newSet [s] = [s]" by (simp add: newSet_def setAdd_def)
  have r: "findPivots_rounds g k B [s] k [s] [s] st = (False, [s], st)"
    using assms by (intro findPivots_rounds_idle) simp_all
  have "set (findLargeTreeRoots st [s] [s] k) \<subseteq> {s}"
    using findLargeTreeRoots_props(1)[of st "[s]" "[s]" k] by auto
  moreover have "findLargeTreeRoots st [s] [s] k \<noteq> []"
    using findLargeTreeRoots_props(3)[of "[s]" st "[s]" k] assms(2) by simp
  moreover have "distinct (findLargeTreeRoots st [s] [s] k)"
    by (rule findLargeTreeRoots_props(2))
  ultimately have "findLargeTreeRoots st [s] [s] k = [s]"
    by (cases "findLargeTreeRoots st [s] [s] k") (auto simp: subset_singleton_iff)
  then show ?thesis using r n by (simp add: findPivots_def)
qed

lemma baseCase_isolated:
  assumes "neighborsOf g s = []" "getDist st s = Some d" "isComplete st s"
  shows "baseCase g B [s] st = Some (Inr ((B, [s]), st))"
proof -
  have "baseCase_loop g B (\<lparr>heap = [(s, d)], positions = [(s, 0)]\<rparr>, [s], [], st) = Some ([s], st)"
    apply (subst baseCase_loop.simps)
    apply (simp add: isEmpty_def ex1 assms(1) setComplete_triv[OF assms(3)])
    apply (subst baseCase_loop.simps)
    apply (simp add: isEmpty_def)
    done
  then show ?thesis using assms(2) by (simp add: baseCase_def heap1)
qed

lemma pull_single: "0 < m \<Longrightarrow> pull m [(v, d)] = (([v], Infinity), [])"
  by (simp add: pull_def Let_def min_def)

lemma relaxEdges_isolated:
  "neighborsOf g s = [] \<Longrightarrow> isComplete st s \<Longrightarrow> relaxEdges g [s] Bi B (st, f) = (st, f)"
  by (simp add: relaxEdges_def relaxEdges_vertex_def setComplete_triv)

lemma BMSSP_isolated:
  assumes "neighborsOf g s = []" "getDist st s = Some (Fin 0)" "isComplete st s" "1 \<le> k"
  shows "BMSSP g k t l Infinity [s] st = Some (Inr ((Infinity, [s]), st))"
proof (induction l)
  case 0
  show ?case using baseCase_isolated[OF assms(1,2,3)] by simp
next
  case (Suc l)
  have f: "newAdaptiveFrontier [s] (distArr st) [] = Some [(s, Fin 0)]"
    using assms(2) by (simp add: getDist_def)
  have k0: "0 < k" using assms(4) by simp
  have cap: "0 < k * 2 ^ (Suc l * t)" using assms(4) by simp
  have "BMSSP_loop (BMSSP g k t l) g (k * 2 ^ (Suc l * t)) (2 ^ (l * t)) Infinity
      ([], Infinity, [(s, Fin 0)], st) = Some (Inr ([s], Infinity, st))"
    apply (subst BMSSP_loop.simps)
    apply (simp add: hasElements_def k0 pull_single Suc.IH relaxEdges_isolated[OF assms(1,3)] loop3 del: power_Suc)
    done
  then show ?case
    using findPivots_isolated[OF assms(1,3,4), of Infinity] f assms(2)
    by (simp add: mergeW_def del: power_Suc)
qed

lemma BMSSP_NegInfinity_isolated:
  assumes "neighborsOf g s = []" "getDist st s = Some (Fin 0)" "isComplete st s" "1 \<le> k"
  shows "BMSSP_NegInfinity g k Infinity [s] st = Some (Inr ((Infinity, [s]), st))"
  using findPivots_isolated[OF assms(1,3,4), of Infinity] assms(2)
  by (simp add: BMSSP_NegInfinity_def mergeW_def getDist_def)

lemma solve_with_isolated:
  assumes "neighborsOf g source = []" "1 \<le> k"
  shows "solve_with k t levels g source None = Some (Inr
    \<lparr>distances = map (\<lambda>i. (int i, Some (if int i = source then Fin 0 else Infinity))) [0..<length (nodes g)],
     predecessors = map (\<lambda>i. (int i, Some (- 1))) [0..<length (nodes g)],
     shortestPath = []\<rparr>)"
proof -
  let ?n = "length (nodes g)"
  let ?st0 = "setComplete source (setDist source (Fin 0) (newTables ?n))"
  have a: "getDist ?st0 source = Some (Fin 0)" "isComplete ?st0 source" by simp_all
  have R: "(case levels of NegInfinity \<Rightarrow> BMSSP_NegInfinity g k Infinity [source] ?st0
            | Level l \<Rightarrow> BMSSP g k t l Infinity [source] ?st0) = Some (Inr ((Infinity, [source]), ?st0))"
    using BMSSP_isolated[OF assms(1) a assms(2)] BMSSP_NegInfinity_isolated[OF assms(1) a assms(2)]
    by (cases levels) simp_all
  have d: "map (\<lambda>i. (int i, getDist ?st0 (int i))) [0..<?n] =
      map (\<lambda>i. (int i, Some (if int i = source then Fin 0 else Infinity))) [0..<?n]"
    by (rule map_cong) (auto simp: getDist_newTables)
  have p: "map (\<lambda>i. (int i, map_of (predArr ?st0) (int i))) [0..<?n] =
      map (\<lambda>i. (int i, Some (- 1))) [0..<?n]"
    by (rule map_cong) (auto simp: predArr_newTables)
  show ?thesis
    unfolding solve_with_def Let_def R using d p by (simp add: pathTo_def)
qed

lemma k_of_ge: "1 \<le> k_of n"
  by (simp add: k_of_def)


lemma findPivots_edge_lowers:
  assumes "getDist st u = Some (Fin du)" "getDist st v = Some dv" "Fin (du + c) < dv" "Fin (du + c) < B"
  shows "getDist (fst (findPivots_edge B u (st, nextLayer, W) (v, c))) v = Some (Fin (du + c))"
  using assms by (auto simp: findPivots_edge_def Let_def)

lemma baseCase_edge_lowers:
  assumes "getDist st u = Some (Fin du)" "getDist st v = Some dv" "Fin (du + c) < dv" "Fin (du + c) < B"
  shows "getDist (fst (baseCase_edge B u (st, h, inHeap) (v, c))) v = Some (Fin (du + c))"
  using assms by (simp add: baseCase_edge_def Let_def)

lemma relaxEdges_edge_lowers:
  assumes "getDist st u = Some (Fin du)" "getDist st v = Some dv" "Fin (du + c) < dv" "Fin (du + c) < B"
  shows "getDist (fst (relaxEdges_edge Bi B u (st, f) (v, c))) v = Some (Fin (du + c))"
  using assms by (auto simp: relaxEdges_edge_def Let_def)




end
